theory Spec2Isabelle
  imports Complex_Main "HOL-Library.Multiset"
begin

section \<open>Values and errors\<close>

text \<open>
  Annotation ids are Python integers (\<open>int\<close>). A text value is represented by its UTF-8
  byte sequence (a \<open>string\<close>), so that \<open>encode('utf8')\<close> and \<open>decode("utf-8")\<close> are
  the identity on the representation. A location, an offset and a resolution are coordinate
  sequences (\<open>real list\<close>); the coordinates are only stored and returned, never computed with.
\<close>

type_synonym location = "real list"

text \<open>
  Every \<open>raise\<close> of the source and every failure of the container engine is a value.
  \<open>No_annotation\<close> is the \<open>raise\<close> of \<open>Annotations.__check\<close>, whose operand is the
  message \<open>"there is no annotation with id " + str(id)\<close> (Python 3 reports the raise of a
  \<open>str\<close> as a \<open>TypeError\<close>; the call ends there either way, before any mutation).
\<close>

datatype error =
    No_annotation int
  | KeyError
  | ValueError
  | TypeError
  | NameError
  | AttributeError
  | IndexError
  | OSError

section \<open>cremi/Annotations.py\<close>

record Annotations =
  Annotations__ids :: "int list"
  Annotations__types :: "int \<rightharpoonup> string"
  Annotations__locations :: "int \<rightharpoonup> location"
  comments :: "int \<rightharpoonup> string"
  pre_post_partners :: "(int \<times> int) list"
  offset :: location

definition Annotations_init :: "location \<Rightarrow> Annotations" where
  "Annotations_init off =
     \<lparr> Annotations__ids = [], Annotations__types = Map.empty,
       Annotations__locations = Map.empty, comments = Map.empty,
       pre_post_partners = [], offset = off \<rparr>"

definition default_offset :: location where
  "default_offset = [0, 0, 0]"

definition check :: "Annotations \<Rightarrow> int \<Rightarrow> error + unit" where
  "check a i = (if Annotations__types a i = None then Inl (No_annotation i) else Inr ())"

definition add_annotation :: "Annotations \<Rightarrow> int \<Rightarrow> string \<Rightarrow> location \<Rightarrow> Annotations" where
  "add_annotation a i ty loc =
     a\<lparr> Annotations__ids := Annotations__ids a @ [i],
        Annotations__types := (Annotations__types a)(i \<mapsto> ty),
        Annotations__locations := (Annotations__locations a)(i \<mapsto> loc) \<rparr>"

definition add_comment :: "Annotations \<Rightarrow> int \<Rightarrow> string \<Rightarrow> error + Annotations" where
  "add_comment a i comment =
     (case check a i of
        Inl e \<Rightarrow> Inl e
      | Inr _ \<Rightarrow> Inr (a\<lparr> comments := (comments a)(i \<mapsto> comment) \<rparr>))"

definition set_pre_post_partners :: "Annotations \<Rightarrow> int \<Rightarrow> int \<Rightarrow> error + Annotations" where
  "set_pre_post_partners a pre_id post_id =
     (case check a pre_id of
        Inl e \<Rightarrow> Inl e
      | Inr _ \<Rightarrow>
          (case check a post_id of
             Inl e \<Rightarrow> Inl e
           | Inr _ \<Rightarrow> Inr (a\<lparr> pre_post_partners := pre_post_partners a @ [(pre_id, post_id)] \<rparr>)))"

definition ids :: "Annotations \<Rightarrow> int list" where
  "ids a = Annotations__ids a"

text \<open>A subscript of a dict raises \<open>KeyError\<close> at a missing key.\<close>

definition subscript :: "('k \<rightharpoonup> 'v) \<Rightarrow> 'k \<Rightarrow> error + 'v" where
  "subscript m k = (case m k of None \<Rightarrow> Inl KeyError | Some v \<Rightarrow> Inr v)"

text \<open>A list comprehension stops at the first element whose expression raises.\<close>

fun comprehension :: "('a \<Rightarrow> error + 'b) \<Rightarrow> 'a list \<Rightarrow> error + 'b list" where
  "comprehension f [] = Inr []"
| "comprehension f (x # xs) =
     (case f x of
        Inl e \<Rightarrow> Inl e
      | Inr y \<Rightarrow> (case comprehension f xs of Inl e \<Rightarrow> Inl e | Inr ys \<Rightarrow> Inr (y # ys)))"

definition types :: "Annotations \<Rightarrow> error + string list" where
  "types a = comprehension (subscript (Annotations__types a)) (Annotations__ids a)"

definition locations :: "Annotations \<Rightarrow> error + location list" where
  "locations a = comprehension (subscript (Annotations__locations a)) (Annotations__ids a)"


subsection \<open>sort\<close>

text \<open>
  A key function receives the id and the keyword arguments \<open>type\<close>, \<open>location\<close> and
  \<open>comment\<close>, and returns a key of a totally ordered type.
\<close>

type_synonym 'k key_fn = "int \<Rightarrow> string \<Rightarrow> location \<Rightarrow> string \<Rightarrow> 'k"

definition default_key_fn :: "int key_fn" where
  "default_key_fn i ty loc comment = i"

definition full_key :: "'k key_fn \<Rightarrow> Annotations \<Rightarrow> int \<Rightarrow> error + 'k" where
  "full_key key_fn a i =
     (case subscript (Annotations__types a) i of
        Inl e \<Rightarrow> Inl e
      | Inr ty \<Rightarrow>
          (case subscript (Annotations__locations a) i of
             Inl e \<Rightarrow> Inl e
           | Inr loc \<Rightarrow>
               Inr (key_fn i ty loc (case comments a i of None \<Rightarrow> [] | Some c \<Rightarrow> c))))"

text \<open>
  \<open>list.sort(key=..., reverse=...)\<close>: the keys of all elements are computed first (an
  exception there leaves the list as it was), then the elements are sorted by key with a
  stable sort; with \<open>reverse\<close> the list is reversed, sorted, and the result reversed, so
  that elements with equal keys keep their order.
\<close>

definition list_sort :: "('a \<Rightarrow> error + 'k::linorder) \<Rightarrow> bool \<Rightarrow> 'a list \<Rightarrow> error + 'a list" where
  "list_sort key reverse xs =
     (case comprehension key xs of
        Inl e \<Rightarrow> Inl e
      | Inr ks \<Rightarrow>
          Inr (map snd
            (if reverse then rev (sort_key fst (rev (zip ks xs)))
             else sort_key fst (zip ks xs))))"

text \<open>
  Objects live in a store: a reference is an index into the list of objects, and a new
  object is allocated at the end. Each \<open>Annotations\<close> object owns its containers
  (\<open>__init__\<close> creates them, \<open>deepcopy\<close> duplicates them), so an object is stored with
  its containers.
\<close>

type_synonym ref = nat
type_synonym heap = "Annotations list"

definition deepcopy :: "heap \<Rightarrow> ref \<Rightarrow> heap \<times> ref" where
  "deepcopy h r = (h @ [h ! r], length h)"

text \<open>
  The body of \<open>sort\<close> after the \<open>in_place\<close> test, on the receiver: the default key
  function returns the id; \<open>full_key\<close> looks the keyword arguments up.
\<close>

definition sort_in_place :: "Annotations \<Rightarrow> ('k::linorder) key_fn option \<Rightarrow> bool
    \<Rightarrow> error + Annotations" where
  "sort_in_place a key_fn reverse =
     (case (case key_fn of
              None \<Rightarrow> list_sort (full_key default_key_fn a) reverse (Annotations__ids a)
            | Some k \<Rightarrow> list_sort (full_key k a) reverse (Annotations__ids a)) of
        Inl e \<Rightarrow> Inl e
      | Inr sorted_ids \<Rightarrow> Inr (a\<lparr> Annotations__ids := sorted_ids \<rparr>))"

text \<open>
  \<open>sort\<close> returns the store after the call and the value returned: \<open>None\<close> for Python's
  \<open>None\<close>, \<open>Some clone\<close> for the reference to the clone.
\<close>

function Annotations_sort :: "heap \<Rightarrow> ref \<Rightarrow> ('k::linorder) key_fn option \<Rightarrow> bool \<Rightarrow> bool
    \<Rightarrow> error + (heap \<times> ref option)" where
  "Annotations_sort h self key_fn reverse in_place =
     (if \<not> in_place then
        (case deepcopy h self of
           (h1, clone) \<Rightarrow>
             (case Annotations_sort h1 clone key_fn reverse True of
                Inl e \<Rightarrow> Inl e
              | Inr (h2, _) \<Rightarrow> Inr (h2, Some clone)))
      else
        (case sort_in_place (h ! self) key_fn reverse of
           Inl e \<Rightarrow> Inl e
         | Inr a \<Rightarrow> Inr (h[self := a], None)))"
  by pat_completeness auto
termination
  by (relation "measure (\<lambda>(h, self, key_fn, reverse, in_place). if in_place then 0 else 1)") auto

declare Annotations_sort.simps [simp del]

text \<open>The key of an id whose type and location are there.\<close>

definition key_of :: "'k key_fn \<Rightarrow> Annotations \<Rightarrow> int \<Rightarrow> 'k" where
  "key_of key_fn a i =
     key_fn i (the (Annotations__types a i)) (the (Annotations__locations a i))
       (case comments a i of None \<Rightarrow> [] | Some c \<Rightarrow> c)"

subsection \<open>Histories of calls\<close>

text \<open>
  The calls a caller can make on an \<open>Annotations\<close> object. A call that raises leaves the
  store as it was: \<open>add_comment\<close> and \<open>set_pre_post_partners\<close> check before they
  mutate, and \<open>list.sort\<close> computes every key before it reorders.
\<close>

datatype 'k call =
    Add_annotation int string location
  | Add_comment int string
  | Set_pre_post_partners int int
  | Sort "'k key_fn option" bool bool

fun call_on :: "heap \<Rightarrow> ref \<Rightarrow> ('k::linorder) call \<Rightarrow> heap" where
  "call_on h r (Add_annotation i ty loc) = h[r := add_annotation (h ! r) i ty loc]"
| "call_on h r (Add_comment i c) =
     (case add_comment (h ! r) i c of Inl e \<Rightarrow> h | Inr a \<Rightarrow> h[r := a])"
| "call_on h r (Set_pre_post_partners pre_id post_id) =
     (case set_pre_post_partners (h ! r) pre_id post_id of Inl e \<Rightarrow> h | Inr a \<Rightarrow> h[r := a])"
| "call_on h r (Sort key_fn reverse in_place) =
     (case Annotations_sort h r key_fn reverse in_place of Inl e \<Rightarrow> h | Inr (h', _) \<Rightarrow> h')"

text \<open>The history of one object: created with an offset, then called.\<close>

definition history :: "location \<Rightarrow> ('k::linorder) call list \<Rightarrow> heap" where
  "history off calls = foldl (\<lambda>h c. call_on h 0 c) [Annotations_init off] calls"

definition object :: "location \<Rightarrow> ('k::linorder) call list \<Rightarrow> Annotations" where
  "object off calls = history off calls ! 0"

text \<open>The ids that a list of calls passes to \<open>add_annotation\<close>.\<close>

fun added_ids :: "'k call list \<Rightarrow> int list" where
  "added_ids [] = []"
| "added_ids (Add_annotation i ty loc # calls) = i # added_ids calls"
| "added_ids (c # calls) = added_ids calls"


text \<open>
  A program over any number of objects: it creates objects and calls methods on the
  objects it holds a reference to (clones included).
\<close>

datatype 'k event = New location | Call ref "'k call"

fun event_step :: "heap \<Rightarrow> ('k::linorder) event \<Rightarrow> heap" where
  "event_step h (New off) = h @ [Annotations_init off]"
| "event_step h (Call r c) = (if r < length h then call_on h r c else h)"

definition run :: "('k::linorder) event list \<Rightarrow> heap" where
  "run evs = foldl event_step [] evs"

text \<open>The invariants of the data model.\<close>

definition consistent :: "Annotations \<Rightarrow> bool" where
  "consistent a \<longleftrightarrow>
     set (ids a) \<subseteq> dom (Annotations__types a) \<and>
     set (ids a) \<subseteq> dom (Annotations__locations a) \<and>
     dom (comments a) \<subseteq> set (ids a) \<and>
     (\<forall>(pre_id, post_id) \<in> set (pre_post_partners a).
        pre_id \<in> set (ids a) \<and> post_id \<in> set (ids a))"

text \<open>
  What the methods maintain on top of it: the two private mappings have exactly the ids of
  the id order as keys.
\<close>

definition well_formed :: "Annotations \<Rightarrow> bool" where
  "well_formed a \<longleftrightarrow>
     dom (Annotations__types a) = set (Annotations__ids a) \<and>
     dom (Annotations__locations a) = set (Annotations__ids a) \<and>
     dom (comments a) \<subseteq> set (Annotations__ids a) \<and>
     (\<forall>(pre_id, post_id) \<in> set (pre_post_partners a).
        pre_id \<in> set (Annotations__ids a) \<and> post_id \<in> set (Annotations__ids a))"

section \<open>The hierarchical container\<close>

text \<open>
  The container engine (h5py, z5py) and the array library are external. The model keeps the
  capability the adapter is written against: groups, datasets with an element type, a shape
  and contents, and attributes on both, addressed by slash-delimited paths. The failures
  are h5py's: creating a name that exists is a \<open>ValueError\<close>, opening a name that does
  not exist a \<open>KeyError\<close>.
\<close>

datatype pyval = PyInt int | PyFloat real | PyBytes string | PySeq "pyval list"

datatype dtype = uint8 | uint64 | double | unicode_dtype

type_synonym path = "string list"

record dataset =
  ds_dtype :: dtype
  ds_shape :: "nat list"
  ds_data :: pyval
  ds_compression :: "string option"
  ds_chunks :: "nat list option"

record container =
  groups :: "path set"
  datasets :: "path \<rightharpoonup> dataset"
  attrs :: "path \<Rightarrow> string \<rightharpoonup> pyval"

text \<open>\<open>str.split("/")\<close> and \<open>"/".join\<close>.\<close>

fun split_slash :: "string \<Rightarrow> string list" where
  "split_slash [] = [[]]"
| "split_slash (c # cs) =
     (if c = CHR ''/'' then [] # split_slash cs
      else (case split_slash cs of [] \<Rightarrow> [[c]] | w # ws \<Rightarrow> (c # w) # ws))"

fun join_slash :: "string list \<Rightarrow> string" where
  "join_slash [] = []"
| "join_slash [x] = x"
| "join_slash (x # y # zs) = x @ ''/'' @ join_slash (y # zs)"

text \<open>The engine resolves a name to its non-empty segments: \<open>"//annotations/"\<close> is \<open>/annotations\<close>.\<close>

definition segments :: "string \<Rightarrow> path" where
  "segments name = filter (\<lambda>d. d \<noteq> []) (split_slash name)"

text \<open>The groups on the way to a path, the path included, below the root.\<close>

fun ancestors :: "path \<Rightarrow> path list" where
  "ancestors [] = []"
| "ancestors (d # ds) = [d] # map ((#) d) (ancestors ds)"

text \<open>The root group is there in every container.\<close>

definition is_group :: "container \<Rightarrow> path \<Rightarrow> bool" where
  "is_group f p \<longleftrightarrow> p = [] \<or> p \<in> groups f"

definition contains :: "container \<Rightarrow> path \<Rightarrow> bool" where
  "contains f p \<longleftrightarrow> is_group f p \<or> datasets f p \<noteq> None"

text \<open>
  The shape \<open>np.asarray(data).shape\<close> of nested sequences, and the arrays of an element
  type and a shape. Unsigned elements are stored exactly when they are in range; a value
  that is not an array of elements of the type is outside the model, and the engine of the
  model refuses it.
\<close>

fun np_shape :: "pyval \<Rightarrow> nat list" where
  "np_shape (PySeq []) = [0]"
| "np_shape (PySeq (v # vs)) = Suc (length vs) # np_shape v"
| "np_shape v = []"

fun scalar_of :: "dtype \<Rightarrow> pyval \<Rightarrow> bool" where
  "scalar_of uint8 (PyInt i) = (0 \<le> i \<and> i < 2 ^ 8)"
| "scalar_of uint64 (PyInt i) = (0 \<le> i \<and> i < 2 ^ 64)"
| "scalar_of double (PyFloat x) = True"
| "scalar_of unicode_dtype (PyBytes s) = True"
| "scalar_of t v = False"

fun array_of :: "dtype \<Rightarrow> nat list \<Rightarrow> pyval \<Rightarrow> bool" where
  "array_of t [] v = scalar_of t v"
| "array_of t (n # shape) (PySeq vs) = (length vs = n \<and> list_all (array_of t shape) vs)"
| "array_of t (n # shape) v = False"

text \<open>
  \<open>file.create_group(name)\<close>: intermediate groups are created with it, and a new node has
  no attributes.
\<close>

fun add_groups :: "container \<Rightarrow> path list \<Rightarrow> container" where
  "add_groups f [] = f"
| "add_groups f (p # ps) =
     add_groups
       (if p \<in> groups f then f
        else f\<lparr> groups := insert p (groups f), attrs := (attrs f)(p := Map.empty) \<rparr>) ps"

definition file_create_group :: "container \<Rightarrow> string \<Rightarrow> error + container" where
  "file_create_group f name =
     (let p = segments name in
      if contains f p \<or> list_ex (\<lambda>q. datasets f q \<noteq> None) (ancestors p) then Inl ValueError
      else Inr (add_groups f (ancestors p)))"

text \<open>\<open>file.create_dataset(name, data=data, dtype=dtype, compression=..., chunks=...)\<close>.\<close>

definition file_create_dataset :: "container \<Rightarrow> string \<Rightarrow> pyval \<Rightarrow> dtype \<Rightarrow> string option
    \<Rightarrow> nat list option \<Rightarrow> error + container" where
  "file_create_dataset f name data t compression chunks =
     (let p = segments name in
      if p = [] \<or> contains f p \<or> list_ex (\<lambda>q. datasets f q \<noteq> None) (ancestors (butlast p))
      then Inl ValueError
      else if \<not> array_of t (np_shape data) data then Inl TypeError
      else Inr ((add_groups f (ancestors (butlast p)))
                 \<lparr> datasets := (datasets f)(p \<mapsto>
                     \<lparr> ds_dtype = t, ds_shape = np_shape data, ds_data = data,
                       ds_compression = compression, ds_chunks = chunks \<rparr>),
                   attrs := (attrs (add_groups f (ancestors (butlast p))))(p := Map.empty) \<rparr>))"

text \<open>\<open>name in file[group]\<close>.\<close>

definition group_contains :: "container \<Rightarrow> string \<Rightarrow> string \<Rightarrow> error + bool" where
  "group_contains f group_name name =
     (if is_group f (segments group_name)
      then Inr (contains f (segments group_name @ segments name))
      else if datasets f (segments group_name) \<noteq> None then Inl TypeError
      else Inl KeyError)"

text \<open>\<open>name in file\<close>.\<close>

definition file_contains :: "container \<Rightarrow> string \<Rightarrow> bool" where
  "file_contains f name = contains f (segments name)"

text \<open>\<open>file[name]\<close> where the adapter goes on to use it as a dataset.\<close>

definition file_dataset :: "container \<Rightarrow> string \<Rightarrow> error + dataset" where
  "file_dataset f name =
     (case datasets f (segments name) of
        Some ds \<Rightarrow> Inr ds
      | None \<Rightarrow> if is_group f (segments name) then Inl AttributeError else Inl KeyError)"

text \<open>\<open>file[name][:] = data[:]\<close>: the contents are replaced, type and shape stay.\<close>

definition dataset_assign :: "container \<Rightarrow> string \<Rightarrow> pyval \<Rightarrow> error + container" where
  "dataset_assign f name data =
     (case file_dataset f name of
        Inl e \<Rightarrow> Inl e
      | Inr ds \<Rightarrow>
          if array_of (ds_dtype ds) (ds_shape ds) data
          then Inr (f\<lparr> datasets := (datasets f)(segments name \<mapsto> ds\<lparr> ds_data := data \<rparr>) \<rparr>)
          else Inl TypeError)"

text \<open>\<open>del file[name]\<close>: the node goes with its attributes (a group with all below it).\<close>

definition file_delete :: "container \<Rightarrow> string \<Rightarrow> error + container" where
  "file_delete f name =
     (let p = segments name in
      if p = [] \<or> \<not> contains f p then Inl KeyError
      else Inr (f\<lparr> groups := {q \<in> groups f. take (length p) q \<noteq> p},
                  datasets := (\<lambda>q. if take (length p) q = p then None else datasets f q),
                  attrs := (\<lambda>q. if take (length p) q = p then Map.empty else attrs f q) \<rparr>))"

text \<open>\<open>file[name].attrs[key] = value\<close>, \<open>key in file[name].attrs\<close>, \<open>file[name].attrs[key]\<close>.\<close>

definition attrs_assign :: "container \<Rightarrow> string \<Rightarrow> string \<Rightarrow> pyval \<Rightarrow> error + container" where
  "attrs_assign f name key v =
     (if contains f (segments name)
      then Inr (f\<lparr> attrs := (attrs f)(segments name := (attrs f (segments name))(key \<mapsto> v)) \<rparr>)
      else Inl KeyError)"

definition attrs_contains :: "container \<Rightarrow> string \<Rightarrow> string \<Rightarrow> error + bool" where
  "attrs_contains f name key =
     (if contains f (segments name) then Inr (attrs f (segments name) key \<noteq> None)
      else Inl KeyError)"

definition attrs_get :: "container \<Rightarrow> string \<Rightarrow> string \<Rightarrow> error + pyval" where
  "attrs_get f name key =
     (if contains f (segments name) then subscript (attrs f (segments name)) key
      else Inl KeyError)"

text \<open>Iterating a dataset yields its rows; a scalar dataset cannot be iterated.\<close>

definition rows :: "dataset \<Rightarrow> error + pyval list" where
  "rows ds = (case ds_data ds of PySeq vs \<Rightarrow> Inr vs | _ \<Rightarrow> Inl TypeError)"

text \<open>
  The values the adapter takes out of the container, at the types of the model: an id is
  an integer, a text a byte string, a location a sequence of floats. A value of another
  kind is outside the model, and taking it out is an error.
\<close>

definition as_int :: "pyval \<Rightarrow> error + int" where
  "as_int v = (case v of PyInt i \<Rightarrow> Inr i | _ \<Rightarrow> Inl TypeError)"

definition as_bytes :: "pyval \<Rightarrow> error + string" where
  "as_bytes v = (case v of PyBytes s \<Rightarrow> Inr s | _ \<Rightarrow> Inl TypeError)"

definition as_float :: "pyval \<Rightarrow> error + real" where
  "as_float v = (case v of PyFloat x \<Rightarrow> Inr x | _ \<Rightarrow> Inl TypeError)"

definition as_location :: "pyval \<Rightarrow> error + location" where
  "as_location v = (case v of PySeq vs \<Rightarrow> comprehension as_float vs | _ \<Rightarrow> Inl TypeError)"

definition of_location :: "location \<Rightarrow> pyval" where
  "of_location loc = PySeq (map PyFloat loc)"

text \<open>Sequencing: the first exception ends the call.\<close>

definition and_then :: "error + 'a \<Rightarrow> ('a \<Rightarrow> error + 'b) \<Rightarrow> error + 'b" where
  "and_then m k = (case m of Inl e \<Rightarrow> Inl e | Inr x \<Rightarrow> k x)"

section \<open>cremi/io/CremiFile.py\<close>

text \<open>
  The two concrete adapters; \<open>CremiN5\<close> carries its \<open>chunks\<close> argument (\<open>None\<close> by
  default). The methods take the adapter's kind and its open container, and return the
  container after the call.
\<close>

datatype backend = CremiFile | CremiN5 "nat list option"

fun create_group_loop :: "container \<Rightarrow> string \<Rightarrow> string list \<Rightarrow> error + container" where
  "create_group_loop f path [] = Inr f"
| "create_group_loop f path (d # ds) =
     (case file_create_group f (path @ d @ ''/'') of
        Inr f' \<Rightarrow> create_group_loop f' (path @ d @ ''/'') ds
      | Inl e \<Rightarrow>
          if e = ValueError then create_group_loop f (path @ d @ ''/'') ds else Inl e)"

definition AbstractCremiFile_create_group :: "container \<Rightarrow> string \<Rightarrow> error + container" where
  "AbstractCremiFile_create_group f group_name =
     create_group_loop f ''/'' (split_slash group_name)"

text \<open>
  \<open>_replace_compatible_dataset\<close> returns nothing to its caller, on the early \<open>return\<close>
  after the overwrite as at its end: the result is the container alone. The advisory
  \<open>print\<close> is not modelled.
\<close>

definition AbstractCremiFile_replace_compatible_dataset ::
    "container \<Rightarrow> string \<Rightarrow> pyval \<Rightarrow> dtype \<Rightarrow> error + container" where
  "AbstractCremiFile_replace_compatible_dataset f path data t =
     (let group_name = join_slash (butlast (split_slash path));
          ds_name = last (split_slash path)
      in and_then (AbstractCremiFile_create_group f group_name) (\<lambda>f1.
         and_then (group_contains f1 group_name ds_name) (\<lambda>present.
           if present then
             and_then (file_dataset f1 path) (\<lambda>ds.
               if ds_dtype ds = t \<and> ds_shape ds = np_shape data
               then dataset_assign f1 path data
               else file_delete f1 path)
           else Inr f1)))"

definition AbstractCremiFile_create_dataset ::
    "container \<Rightarrow> string \<Rightarrow> pyval \<Rightarrow> dtype \<Rightarrow> string option \<Rightarrow> error + container" where
  "AbstractCremiFile_create_dataset f path data t compression =
     and_then (AbstractCremiFile_replace_compatible_dataset f path data t) (\<lambda>f1.
       file_create_dataset f1 path data t compression None)"

text \<open>
  The chunk shape of \<open>CremiN5._create_dataset\<close>:
  \<open>[max(c, s) for c, s in zip(self.chunks, data.shape)]\<close>; \<open>zip\<close> over \<open>None\<close> is a
  \<open>TypeError\<close>.
\<close>

definition CremiN5_chunks :: "nat list option \<Rightarrow> nat list \<Rightarrow> error + nat list" where
  "CremiN5_chunks chunks shape =
     (case chunks of
        None \<Rightarrow> Inl TypeError
      | Some cs \<Rightarrow> Inr (map (\<lambda>(c, s). max c s) (zip cs shape)))"

definition CremiN5_create_dataset ::
    "nat list option \<Rightarrow> container \<Rightarrow> string \<Rightarrow> pyval \<Rightarrow> dtype \<Rightarrow> string option
     \<Rightarrow> error + container" where
  "CremiN5_create_dataset self_chunks f path data t compression =
     and_then (AbstractCremiFile_replace_compatible_dataset f path data t) (\<lambda>f1.
     and_then (CremiN5_chunks self_chunks (np_shape data)) (\<lambda>chunks.
       file_create_dataset f1 path data t compression (Some chunks)))"

fun create_dataset ::
    "backend \<Rightarrow> container \<Rightarrow> string \<Rightarrow> pyval \<Rightarrow> dtype \<Rightarrow> string option \<Rightarrow> error + container" where
  "create_dataset CremiFile = AbstractCremiFile_create_dataset"
| "create_dataset (CremiN5 self_chunks) = CremiN5_create_dataset self_chunks"

definition AbstractCremiFile_spatial :: "'a list \<Rightarrow> 'a list" where
  "AbstractCremiFile_spatial sequence = sequence"

definition CremiN5_spatial :: "'a list \<Rightarrow> 'a list" where
  "CremiN5_spatial sequence = rev sequence"

fun spatial :: "backend \<Rightarrow> 'a list \<Rightarrow> 'a list" where
  "spatial CremiFile = AbstractCremiFile_spatial"
| "spatial (CremiN5 self_chunks) = CremiN5_spatial"

text \<open>
  Modelled from the spec: the \<open>Volume\<close> value object (\<open>cremi/Volume.py\<close> is missing):
  array data, a resolution, an offset whose default is the zero vector, and an optional
  comment.
\<close>

record Volume =
  volume_data :: pyval
  volume_resolution :: location
  volume_offset :: location
  volume_comment :: "string option"

definition write_volume :: "backend \<Rightarrow> container \<Rightarrow> Volume \<Rightarrow> string \<Rightarrow> dtype
    \<Rightarrow> error + container" where
  "write_volume b f volume ds_name t =
     and_then (create_dataset b f ds_name (volume_data volume) t (Some ''gzip'')) (\<lambda>f1.
     and_then (attrs_assign f1 ds_name ''resolution''
                 (of_location (spatial b (volume_resolution volume)))) (\<lambda>f2.
     and_then (attrs_assign f2 ds_name ''offset''
                 (of_location (spatial b (volume_offset volume)))) (\<lambda>f3.
       case volume_comment volume of
         None \<Rightarrow> Inr f3
       | Some c \<Rightarrow> attrs_assign f3 ds_name ''comment'' (PyBytes c))))"

definition read_volume :: "backend \<Rightarrow> container \<Rightarrow> string \<Rightarrow> error + Volume" where
  "read_volume b f ds_name =
     and_then (file_dataset f ds_name) (\<lambda>ds.
     and_then (attrs_get f ds_name ''resolution'') (\<lambda>r.
     and_then (as_location r) (\<lambda>resolution.
     and_then (attrs_contains f ds_name ''offset'') (\<lambda>has_offset.
     and_then (if has_offset
               then and_then (attrs_get f ds_name ''offset'') (\<lambda>v.
                    and_then (as_location v) (\<lambda>off. Inr (spatial b off)))
               else Inr [0, 0, 0]) (\<lambda>off.
     and_then (attrs_contains f ds_name ''comment'') (\<lambda>has_comment.
     and_then (if has_comment
               then and_then (attrs_get f ds_name ''comment'') (\<lambda>v.
                    and_then (as_bytes v) (\<lambda>c. Inr (Some c)))
               else Inr None) (\<lambda>comment.
       Inr \<lparr> volume_data = ds_data ds, volume_resolution = spatial b resolution,
             volume_offset = off, volume_comment = comment \<rparr>)))))))"

definition write_raw :: "backend \<Rightarrow> container \<Rightarrow> Volume \<Rightarrow> error + container" where
  "write_raw b f raw = write_volume b f raw ''/volumes/raw'' uint8"

definition read_raw :: "backend \<Rightarrow> container \<Rightarrow> error + Volume" where
  "read_raw b f = read_volume b f ''/volumes/raw''"

text \<open>The loop of \<open>write_annotations\<close> over the ids that have a comment.\<close>

fun comments_loop :: "(int \<rightharpoonup> string) \<Rightarrow> int list \<Rightarrow> int list \<times> string list
    \<Rightarrow> int list \<times> string list" where
  "comments_loop cm [] (keys, vals) = (keys, vals)"
| "comments_loop cm (i # rest) (keys, vals) =
     (case cm i of
        None \<Rightarrow> comments_loop cm rest (keys, vals)
      | Some c \<Rightarrow> comments_loop cm rest (keys @ [i], vals @ [c]))"

definition write_annotations :: "backend \<Rightarrow> container \<Rightarrow> Annotations \<Rightarrow> error + container" where
  "write_annotations b f annotations =
     (if length (ids annotations) = 0 then Inr f
      else
        and_then (AbstractCremiFile_create_group f ''/annotations'') (\<lambda>f1.
        and_then (attrs_assign f1 ''/annotations'' ''offset''
                    (of_location (spatial b (offset annotations)))) (\<lambda>f2.
        and_then (create_dataset b f2 ''/annotations/ids''
                    (PySeq (map PyInt (ids annotations))) uint64 None) (\<lambda>f3.
        and_then (types annotations) (\<lambda>ts.
        and_then (create_dataset b f3 ''/annotations/types''
                    (PySeq (map PyBytes ts)) unicode_dtype (Some ''gzip'')) (\<lambda>f4.
        and_then (locations annotations) (\<lambda>locs.
        and_then (create_dataset b f4 ''/annotations/locations''
                    (PySeq (map (\<lambda>loc. of_location (spatial b loc)) locs)) double None) (\<lambda>f5.
        and_then (if dom (comments annotations) \<noteq> {} then
                    (case comments_loop (comments annotations) (ids annotations) ([], []) of
                       (keys, vals) \<Rightarrow>
                         and_then (create_dataset b f5 ''/annotations/comments/target_ids''
                                     (PySeq (map PyInt keys)) uint64 None) (\<lambda>f6.
                           create_dataset b f6 ''/annotations/comments/comments''
                             (PySeq (map PyBytes vals)) unicode_dtype None))
                  else Inr f5) (\<lambda>f7.
          if length (pre_post_partners annotations) > 0 then
            create_dataset b f7 ''/annotations/presynaptic_site/partners''
              (PySeq (map (\<lambda>(pre_id, post_id). PySeq [PyInt pre_id, PyInt post_id])
                        (pre_post_partners annotations))) uint64 None
          else Inr f7)))))))))"





text \<open>
  \<open>has_neuron_ids_confidence\<close> and \<open>read_neuron_ids_confidence\<close>. The module binds no
  name \<open>Confidences\<close> (the source says so: \<open>FIXME Confidences is undefined\<close>), so the
  binding is a parameter of the model: \<open>None\<close> when the name is unbound, and evaluating an
  unbound name raises \<open>NameError\<close>. A bound class has a constructor and \<open>add_all\<close>.
  Indexing is Python's: a negative index counts from the end, an index out of range raises,
  a slice is cut to the range. The loop may run forever (on a negative count), so not
  returning is the value \<open>None\<close>.
\<close>

record 'c confidences_class =
  new_confidences :: "nat \<Rightarrow> 'c"
  add_all :: "'c \<Rightarrow> int \<Rightarrow> pyval list \<Rightarrow> 'c"

definition has_neuron_ids_confidence :: "container \<Rightarrow> bool" where
  "has_neuron_ids_confidence f = file_contains f ''/volumes/labels/neuron_ids_confidence''"

definition py_index :: "'a list \<Rightarrow> int \<Rightarrow> error + 'a" where
  "py_index xs i =
     (if 0 \<le> i \<and> i < int (length xs) then Inr (xs ! nat i)
      else if i < 0 \<and> - int (length xs) \<le> i then Inr (xs ! nat (int (length xs) + i))
      else Inl IndexError)"

definition py_slice :: "'a list \<Rightarrow> int \<Rightarrow> int \<Rightarrow> 'a list" where
  "py_slice xs i j =
     (let n = int (length xs);
          lo = max 0 (min n (if i < 0 then n + i else i));
          hi = max 0 (min n (if j < 0 then n + j else j))
      in take (nat hi - nat lo) (drop (nat lo) xs))"

partial_function (option) confidences_loop ::
    "'c confidences_class \<Rightarrow> pyval list \<Rightarrow> int \<Rightarrow> 'c \<Rightarrow> (error + 'c) option" where
  "confidences_loop cls data i confidences =
     (if i < int (length data) then
        (case and_then (py_index data i) as_int of
           Inl e \<Rightarrow> Some (Inl e)
         | Inr level \<Rightarrow>
             (case and_then (py_index data (i + 1)) as_int of
                Inl e \<Rightarrow> Some (Inl e)
              | Inr num_ids \<Rightarrow>
                  confidences_loop cls data (i + 1 + 1 + num_ids)
                    (add_all cls confidences level
                       (py_slice data (i + 1 + 1) (i + 1 + 1 + num_ids)))))
      else Some (Inr confidences))"

definition read_neuron_ids_confidence ::
    "'c confidences_class option \<Rightarrow> container \<Rightarrow> (error + 'c) option" where
  "read_neuron_ids_confidence Confidences f =
     (case Confidences of
        None \<Rightarrow> Some (Inl NameError)
      | Some cls \<Rightarrow>
          (let confidences = new_confidences cls 2 in
           if \<not> has_neuron_ids_confidence f then Some (Inr confidences)
           else
             (case and_then (file_dataset f ''/volumes/labels/neuron_ids_confidence'') rows of
                Inl e \<Rightarrow> Some (Inl e)
              | Inr data \<Rightarrow> confidences_loop cls data 0 confidences)))"

definition module_Confidences :: "'c confidences_class option" where
  "module_Confidences = None"

text \<open>
  \<open>CremiFile.__init__\<close>. \<open>h5py.File(filename, mode)\<close> is h5py's, over the files that
  exist: \<open>r\<close> and \<open>r+\<close> open an existing file (\<open>r+\<close> for reading and writing), \<open>w\<close>
  creates or truncates, \<open>w-\<close> and \<open>x\<close> create and fail on an existing file, \<open>a\<close> opens
  for reading and writing and creates the file when it is missing.
\<close>

definition empty_container :: container where
  "empty_container = \<lparr> groups = {}, datasets = Map.empty, attrs = (\<lambda>p. Map.empty) \<rparr>"

definition h5py_File :: "(string \<rightharpoonup> container) \<Rightarrow> string \<Rightarrow> string \<Rightarrow> error + container" where
  "h5py_File fs filename mode =
     (if mode = ''r'' \<or> mode = ''r+'' then
        (case fs filename of None \<Rightarrow> Inl OSError | Some f \<Rightarrow> Inr f)
      else if mode = ''w'' then Inr empty_container
      else if mode = ''w-'' \<or> mode = ''x'' then
        (case fs filename of None \<Rightarrow> Inr empty_container | Some f \<Rightarrow> Inl OSError)
      else if mode = ''a'' then
        (case fs filename of None \<Rightarrow> Inr empty_container | Some f \<Rightarrow> Inr f)
      else Inl ValueError)"

text \<open>The modes in which h5py opens a file that can be written to.\<close>

definition write_capable :: "string \<Rightarrow> bool" where
  "write_capable mode \<longleftrightarrow> mode \<in> set [''r+'', ''w'', ''w-'', ''x'', ''a'']"

definition CremiFile_init :: "(string \<rightharpoonup> container) \<Rightarrow> string \<Rightarrow> string \<Rightarrow> error + container" where
  "CremiFile_init fs filename mode =
     and_then (h5py_File fs filename mode) (\<lambda>file.
       if mode = ''w'' \<or> mode = ''a''
       then attrs_assign file ''/'' ''file_format'' (PyBytes ''0.2'')
       else Inr file)"

subsection \<open>Notions used in the statements about the adapter\<close>

text \<open>
  The \<open>chunks\<close> argument that \<open>_create_dataset\<close> passes to the engine, and the adapters
  whose \<open>_create_dataset\<close> gets as far as the engine: every one but a \<open>CremiN5\<close> left
  with its default \<open>chunks=None\<close>.
\<close>

fun chunk_arg :: "backend \<Rightarrow> nat list \<Rightarrow> nat list option" where
  "chunk_arg CremiFile shape = None"
| "chunk_arg (CremiN5 None) shape = None"
| "chunk_arg (CremiN5 (Some cs)) shape = Some (map (\<lambda>(c, s). max c s) (zip cs shape))"

definition chunks_given :: "backend \<Rightarrow> bool" where
  "chunks_given b \<longleftrightarrow> b \<noteq> CremiN5 None"

text \<open>A fresh container: no group but the root, no dataset.\<close>

definition fresh :: "container \<Rightarrow> bool" where
  "fresh f \<longleftrightarrow> groups f = {} \<and> datasets f = Map.empty"

text \<open>An id that the unsigned 64-bit element type holds.\<close>

definition in_uint64 :: "int \<Rightarrow> bool" where
  "in_uint64 i \<longleftrightarrow> 0 \<le> i \<and> i < 2 ^ 64"

text \<open>
  The container that \<open>write_annotations\<close> leaves when it starts from a fresh one: the
  group \<open>/annotations\<close> with the offset attribute, the three datasets in id order, the
  two comment datasets over the ids that have a comment (when any comment exists), and the
  partner dataset (when any link exists).
\<close>

definition stored :: "backend \<Rightarrow> pyval \<Rightarrow> dtype \<Rightarrow> string option \<Rightarrow> dataset" where
  "stored b data t c =
     \<lparr> ds_dtype = t, ds_shape = np_shape data, ds_data = data, ds_compression = c,
       ds_chunks = chunk_arg b (np_shape data) \<rparr>"

definition put_group :: "container \<Rightarrow> path \<Rightarrow> container" where
  "put_group f p = f\<lparr> groups := insert p (groups f), attrs := (attrs f)(p := Map.empty) \<rparr>"

definition put_dataset :: "container \<Rightarrow> path \<Rightarrow> dataset \<Rightarrow> container" where
  "put_dataset f p ds = f\<lparr> datasets := (datasets f)(p \<mapsto> ds), attrs := (attrs f)(p := Map.empty) \<rparr>"

definition commented_ids :: "Annotations \<Rightarrow> int list" where
  "commented_ids a = filter (\<lambda>i. comments a i \<noteq> None) (ids a)"

definition written :: "backend \<Rightarrow> container \<Rightarrow> Annotations \<Rightarrow> container" where
  "written b f a =
     (let f1 = put_group f [''annotations''];
          f2 = f1\<lparr> attrs := (attrs f1)([''annotations''] :=
                   [''offset'' \<mapsto> of_location (spatial b (offset a))]) \<rparr>;
          f3 = put_dataset f2 [''annotations'', ''ids'']
                 (stored b (PySeq (map PyInt (ids a))) uint64 None);
          f4 = put_dataset f3 [''annotations'', ''types'']
                 (stored b (PySeq (map (\<lambda>i. PyBytes (the (Annotations__types a i))) (ids a)))
                    unicode_dtype (Some ''gzip''));
          f5 = put_dataset f4 [''annotations'', ''locations'']
                 (stored b
                    (PySeq (map (\<lambda>i. of_location (spatial b (the (Annotations__locations a i))))
                              (ids a)))
                    double None);
          f6 = (if dom (comments a) \<noteq> {} then
                  put_dataset
                    (put_dataset (put_group f5 [''annotations'', ''comments''])
                       [''annotations'', ''comments'', ''target_ids'']
                       (stored b (PySeq (map PyInt (commented_ids a))) uint64 None))
                    [''annotations'', ''comments'', ''comments'']
                    (stored b (PySeq (map (\<lambda>i. PyBytes (the (comments a i))) (commented_ids a)))
                       unicode_dtype None)
                else f5)
      in if pre_post_partners a \<noteq> [] then
           put_dataset (put_group f6 [''annotations'', ''presynaptic_site''])
             [''annotations'', ''presynaptic_site'', ''partners'']
             (stored b
                (PySeq (map (\<lambda>(pre_id, post_id). PySeq [PyInt pre_id, PyInt post_id])
                          (pre_post_partners a)))
                uint64 None)
         else f6)"



definition example_set :: Annotations where
  "example_set =
     \<lparr> Annotations__ids = [1, 2],
       Annotations__types = [1 \<mapsto> ''presynaptic_site'', 2 \<mapsto> ''postsynaptic_site''],
       Annotations__locations = [1 \<mapsto> [10, 20, 30], 2 \<mapsto> [15, 20, 30]],
       comments = [1 \<mapsto> ''near vesicle cluster''],
       pre_post_partners = [(1, 2)],
       offset = [0, 0, 0] \<rparr>"

definition example_unsorted :: Annotations where
  "example_unsorted = example_set\<lparr> Annotations__ids := [2, 1] \<rparr>"

text \<open>
  A program over two objects: the first is filled out of order and sorted into a clone; the
  clone then gets a third annotation.
\<close>

definition example_events :: "int event list" where
  "example_events =
     [New [0, 0, 0],
      Call 0 (Add_annotation 2 ''postsynaptic_site'' [15, 20, 30]),
      Call 0 (Add_annotation 1 ''presynaptic_site'' [10, 20, 30]),
      Call 0 (Set_pre_post_partners 1 2),
      Call 0 (Add_comment 1 ''near vesicle cluster''),
      Call 0 (Add_comment 7 ''no such annotation''),
      Call 0 (Sort None False False),
      Call 1 (Add_annotation 3 ''postsynaptic_site'' [1, 2, 3])]"

text \<open>An id added twice, with a comment.\<close>

definition duplicate_calls :: "int call list" where
  "duplicate_calls =
     [Add_annotation 5 ''presynaptic_site'' [1, 2, 3],
      Add_annotation 6 ''postsynaptic_site'' [4, 5, 6],
      Add_annotation 5 ''postsynaptic_site'' [7, 8, 9],
      Add_comment 5 ''twice'']"

definition duplicate_set :: Annotations where
  "duplicate_set =
     \<lparr> Annotations__ids = [5, 6, 5],
       Annotations__types = [5 \<mapsto> ''postsynaptic_site'', 6 \<mapsto> ''postsynaptic_site''],
       Annotations__locations = [5 \<mapsto> [7, 8, 9], 6 \<mapsto> [4, 5, 6]],
       comments = [5 \<mapsto> ''twice''],
       pre_post_partners = [],
       offset = [0, 0, 0] \<rparr>"

text \<open>A container with a dataset at \<open>/volumes/raw\<close>, and data of the same and of another shape.\<close>

definition raw_dataset :: "pyval \<Rightarrow> dataset" where
  "raw_dataset data =
     \<lparr> ds_dtype = uint8, ds_shape = np_shape data, ds_data = data,
       ds_compression = Some ''gzip'', ds_chunks = None \<rparr>"

definition container_with_raw :: "pyval \<Rightarrow> container" where
  "container_with_raw data =
     \<lparr> groups = {[''volumes'']},
       datasets = [[''volumes'', ''raw''] \<mapsto> raw_dataset data],
       attrs = (\<lambda>p. Map.empty) \<rparr>"

definition first_data :: pyval where
  "first_data = PySeq [PyInt 1, PyInt 2]"

definition same_shape_data :: pyval where
  "same_shape_data = PySeq [PyInt 3, PyInt 4]"

definition other_shape_data :: pyval where
  "other_shape_data = PySeq [PyInt 5, PyInt 6, PyInt 7]"

text \<open>A volume of shape (1, 2, 2).\<close>

definition example_volume_data :: pyval where
  "example_volume_data = PySeq [PySeq [PySeq [PyInt 0, PyInt 1], PySeq [PyInt 2, PyInt 3]]]"

text \<open>
  Modelled from the spec: a class for \<open>Confidences\<close>, a mapping from confidence level to
  the set of ids, as the module would need it.
\<close>

definition spec_Confidences :: "(int \<Rightarrow> pyval set) confidences_class" where
  "spec_Confidences =
     \<lparr> new_confidences = (\<lambda>num_levels level. {}),
       add_all = (\<lambda>c level ids. c(level := c level \<union> set ids)) \<rparr>"

definition confidence_stream :: pyval where
  "confidence_stream = PySeq (map PyInt [1, 2, 10, 11, 0, 1, 12])"

definition container_with_confidence :: container where
  "container_with_confidence =
     \<lparr> groups = {[''volumes''], [''volumes'', ''labels'']},
       datasets = [[''volumes'', ''labels'', ''neuron_ids_confidence''] \<mapsto>
         \<lparr> ds_dtype = uint64, ds_shape = [7], ds_data = confidence_stream,
           ds_compression = None, ds_chunks = None \<rparr>],
       attrs = (\<lambda>p. Map.empty) \<rparr>"


section \<open>Properties of the annotation set\<close>

lemma comprehension_total:
  "\<forall>x \<in> set xs. \<exists>y. f x = Inr y \<Longrightarrow> comprehension f xs = Inr (map (projr \<circ> f) xs)"
proof (induction xs)
  case Nil
  show ?case by simp
next
  case (Cons x xs)
  then obtain y where "f x = Inr y" by auto
  with Cons show ?case by simp
qed

lemma comprehension_Inr_length:
  "comprehension f xs = Inr ys \<Longrightarrow> length ys = length xs"
  by (induction xs arbitrary: ys) (auto split: sum.splits)

lemma comprehension_Inr_map:
  "comprehension f xs = Inr ys \<Longrightarrow> map f xs = map Inr ys"
  by (induction xs arbitrary: ys) (auto split: sum.splits)

lemma list_sort_mset:
  assumes "list_sort key reverse xs = Inr ys"
  shows "mset ys = mset xs"
proof -
  from assms obtain ks where ks: "comprehension key xs = Inr ks"
    and ys: "ys = map snd (if reverse then rev (sort_key fst (rev (zip ks xs)))
                           else sort_key fst (zip ks xs))"
    by (auto simp: list_sort_def split: sum.splits)
  have len: "length ks = length xs"
    using ks by (rule comprehension_Inr_length)
  have "mset ys = image_mset snd (mset (zip ks xs))"
    by (simp add: ys)
  also have "\<dots> = mset (map snd (zip ks xs))"
    by simp
  also have "\<dots> = mset xs"
    using len by simp
  finally show ?thesis .
qed

lemma list_sort_set:
  "list_sort key reverse xs = Inr ys \<Longrightarrow> set ys = set xs"
  by (metis list_sort_mset set_mset_mset)

lemma sort_in_place_Inr:
  assumes "sort_in_place a key_fn reverse = Inr a'"
  shows "\<exists>ys. a' = a\<lparr> Annotations__ids := ys \<rparr> \<and> mset ys = mset (Annotations__ids a)"
  using assms
  by (auto simp: sort_in_place_def split: sum.splits option.splits dest: list_sort_mset)

lemma sort_True:
  "Annotations_sort h self key_fn reverse True =
     (case sort_in_place (h ! self) key_fn reverse of
        Inl e \<Rightarrow> Inl e
      | Inr a \<Rightarrow> Inr (h[self := a], None))"
  by (simp add: Annotations_sort.simps)

lemma sort_False:
  "Annotations_sort h self key_fn reverse False =
     (case sort_in_place (h ! self) key_fn reverse of
        Inl e \<Rightarrow> Inl e
      | Inr a \<Rightarrow> Inr (h @ [a], Some (length h)))"
  by (simp add: Annotations_sort.simps [of h self key_fn reverse False] sort_True deepcopy_def
      split: sum.splits)

subsection \<open>The methods keep the set well formed\<close>

lemma well_formed_init: "well_formed (Annotations_init off)"
  by (simp add: well_formed_def Annotations_init_def)

lemma well_formed_add_annotation:
  "well_formed a \<Longrightarrow> well_formed (add_annotation a i ty loc)"
  by (auto simp: well_formed_def add_annotation_def)

lemma check_Inr: "check a i = Inr u \<longleftrightarrow> i \<in> dom (Annotations__types a)"
  by (auto simp: check_def)

lemma check_Inl: "check a i = Inl e \<longleftrightarrow> i \<notin> dom (Annotations__types a) \<and> e = No_annotation i"
  by (auto simp: check_def)

lemma add_comment_Inr:
  "add_comment a i c = Inr a' \<longleftrightarrow>
     i \<in> dom (Annotations__types a) \<and> a' = a\<lparr> comments := (comments a)(i \<mapsto> c) \<rparr>"
  by (auto simp: add_comment_def check_def)

lemma set_pre_post_partners_Inr:
  "set_pre_post_partners a p q = Inr a' \<longleftrightarrow>
     p \<in> dom (Annotations__types a) \<and> q \<in> dom (Annotations__types a) \<and>
     a' = a\<lparr> pre_post_partners := pre_post_partners a @ [(p, q)] \<rparr>"
  by (auto simp: set_pre_post_partners_def check_def)

lemma well_formed_add_comment:
  "well_formed a \<Longrightarrow> add_comment a i c = Inr a' \<Longrightarrow> well_formed a'"
  by (auto simp: well_formed_def add_comment_Inr)

lemma well_formed_set_pre_post_partners:
  "well_formed a \<Longrightarrow> set_pre_post_partners a p q = Inr a' \<Longrightarrow> well_formed a'"
  by (auto simp: well_formed_def set_pre_post_partners_Inr)

lemma well_formed_sort_in_place:
  assumes "well_formed a" and "sort_in_place a key_fn reverse = Inr a'"
  shows "well_formed a'"
proof -
  from sort_in_place_Inr [OF assms(2)] obtain ys
    where a': "a' = a\<lparr> Annotations__ids := ys \<rparr>" and "mset ys = mset (Annotations__ids a)"
    by blast
  then have "set ys = set (Annotations__ids a)"
    by (metis set_mset_mset)
  with assms(1) show ?thesis
    by (simp add: well_formed_def a')
qed

lemma well_formed_consistent: "well_formed a \<Longrightarrow> consistent a"
  by (auto simp: well_formed_def consistent_def ids_def)

lemma sort_Inr:
  assumes "Annotations_sort h r key_fn reverse in_place = Inr (h', ret)"
  obtains a where "sort_in_place (h ! r) key_fn reverse = Inr a"
    and "in_place \<Longrightarrow> h' = h[r := a] \<and> ret = None"
    and "\<not> in_place \<Longrightarrow> h' = h @ [a] \<and> ret = Some (length h)"
  using assms
  by (cases in_place; cases "sort_in_place (h ! r) key_fn reverse")
     (auto simp: sort_True sort_False)

lemma call_on_length:
  fixes c :: "('k::linorder) call"
  shows "length h \<le> length (call_on h r c)"
proof (cases c)
  case (Sort key_fn reverse in_place)
  show ?thesis
  proof (cases "Annotations_sort h r key_fn reverse in_place")
    case (Inl e)
    with Sort show ?thesis by simp
  next
    case (Inr res)
    obtain h' ret where "res = (h', ret)" by (cases res)
    with Inr Sort show ?thesis
      by (cases in_place) (auto elim!: sort_Inr)
  qed
qed (auto split: sum.splits)

lemma call_on_other:
  fixes c :: "('k::linorder) call"
  assumes "r' < length h" and "r' \<noteq> r"
  shows "call_on h r c ! r' = h ! r'"
proof (cases c)
  case (Sort key_fn reverse in_place)
  show ?thesis
  proof (cases "Annotations_sort h r key_fn reverse in_place")
    case (Inl e)
    with Sort show ?thesis by simp
  next
    case (Inr res)
    obtain h' ret where "res = (h', ret)" by (cases res)
    with Inr Sort assms show ?thesis
      by (cases in_place) (auto elim!: sort_Inr simp: nth_append)
  qed
qed (use assms in \<open>auto split: sum.splits\<close>)

lemma call_on_well_formed:
  fixes c :: "('k::linorder) call"
  assumes "\<forall>a \<in> set h. well_formed a" and "r < length h"
  shows "\<forall>a \<in> set (call_on h r c). well_formed a"
proof -
  have upd: "\<forall>x \<in> set (h[r := a]). well_formed x" if "well_formed a" for a
    using assms(1) that by (metis insertE set_update_subset_insert subsetD)
  have hr: "well_formed (h ! r)"
    using assms by simp
  show ?thesis
  proof (cases c)
    case (Add_annotation i ty loc)
    with upd [OF well_formed_add_annotation [OF hr]] show ?thesis by simp
  next
    case (Add_comment i cm)
    show ?thesis
    proof (cases "add_comment (h ! r) i cm")
      case (Inl e)
      with Add_comment assms show ?thesis by simp
    next
      case (Inr a)
      with Add_comment upd [OF well_formed_add_comment [OF hr Inr]] show ?thesis by simp
    qed
  next
    case (Set_pre_post_partners p q)
    show ?thesis
    proof (cases "set_pre_post_partners (h ! r) p q")
      case (Inl e)
      with Set_pre_post_partners assms show ?thesis by simp
    next
      case (Inr a)
      with Set_pre_post_partners upd [OF well_formed_set_pre_post_partners [OF hr Inr]]
      show ?thesis by simp
    qed
  next
    case (Sort key_fn reverse in_place)
    show ?thesis
    proof (cases "Annotations_sort h r key_fn reverse in_place")
      case (Inl e)
      with Sort assms show ?thesis by simp
    next
      case (Inr res)
      obtain h' ret where res: "res = (h', ret)" by (cases res)
      from Inr [unfolded res] obtain a where a: "sort_in_place (h ! r) key_fn reverse = Inr a"
        and h': "h' = (if in_place then h[r := a] else h @ [a])"
        by (rule sort_Inr) auto
      have "well_formed a"
        using hr a by (rule well_formed_sort_in_place)
      with upd [of a] assms(1) have "\<forall>x \<in> set h'. well_formed x"
        by (auto simp: h')
      with Sort Inr res show ?thesis by simp
    qed
  qed
qed


lemma added_ids_append: "added_ids (xs @ ys) = added_ids xs @ added_ids ys"
proof (induction xs)
  case Nil
  show ?case by simp
next
  case (Cons c xs)
  then show ?case by (cases c) simp_all
qed

lemma history_snoc: "history off (calls @ [c]) = call_on (history off calls) 0 c"
  by (simp add: history_def)

lemma history_nonempty:
  fixes calls :: "('k::linorder) call list"
  shows "0 < length (history off calls)"
proof (induction calls rule: rev_induct)
  case Nil
  show ?case by (simp add: history_def)
next
  case (snoc c calls)
  have "length (history off calls) \<le> length (call_on (history off calls) 0 c)"
    by (rule call_on_length)
  with snoc show ?case
    unfolding history_snoc by (rule less_le_trans)
qed


lemma history_well_formed:
  fixes calls :: "('k::linorder) call list"
  shows "\<forall>a \<in> set (history off calls). well_formed a"
proof (induction calls rule: rev_induct)
  case Nil
  show ?case by (simp add: history_def well_formed_init)
next
  case (snoc c calls)
  from call_on_well_formed [OF snoc history_nonempty] show ?case
    by (simp add: history_snoc)
qed

lemma run_well_formed:
  fixes evs :: "('k::linorder) event list"
  shows "\<forall>a \<in> set (run evs). well_formed a"
proof (induction evs rule: rev_induct)
  case Nil
  show ?case by (simp add: run_def)
next
  case (snoc ev evs)
  have step: "run (evs @ [ev]) = event_step (run evs) ev"
    by (simp add: run_def)
  show ?case
  proof (cases ev)
    case (New off)
    with snoc show ?thesis
      unfolding step by (auto simp: well_formed_init)
  next
    case (Call r c)
    with snoc call_on_well_formed [of "run evs" r c] show ?thesis
      unfolding step by auto
  qed
qed


subsection \<open>Unknown and known ids\<close>



subsection \<open>The invariants of the data model\<close>

text \<open>
  C7. Run any program that creates annotation sets (empty, with an offset) and calls
  \<open>add_annotation\<close>, \<open>add_comment\<close>, \<open>set_pre_post_partners\<close> and \<open>sort\<close> on the sets
  it holds, clones returned by \<open>sort\<close> included. Every set in the store at the end is
  consistent: each id of the id order has a type and a location, each comment key is in the
  id order, and both ids of each partner link are in the id order.
\<close>

theorem reachable_sets_consistent:
  fixes evs :: "('k::linorder) event list"
  assumes "a \<in> set (run evs)"
  shows "consistent a"
  using run_well_formed assms by (blast intro: well_formed_consistent)

lemma run_example_events:
  "map ids (run example_events) = [[2, 1], [1, 2, 3]]"
  by (simp add: run_def example_events_def Annotations_init_def add_annotation_def
      add_comment_def set_pre_post_partners_def check_def sort_False sort_in_place_def
      list_sort_def full_key_def subscript_def default_key_fn_def ids_def)

theorem reachable_sets_consistent_witness:
  "run example_events ! 1 \<in> set (run example_events) \<and>
   ids (run example_events ! 1) = [1, 2, 3] \<and>
   consistent (run example_events ! 1)"
proof -
  have len: "length (run example_events) = 2"
    using arg_cong [OF run_example_events, of length] by simp
  then have mem: "run example_events ! 1 \<in> set (run example_events)"
    by simp
  have "ids (run example_events ! 1) = map ids (run example_events) ! 1"
    using len by simp
  then have "ids (run example_events ! 1) = [1, 2, 3]"
    by (simp add: run_example_events)
  with mem reachable_sets_consistent [OF mem] show ?thesis
    by simp
qed

subsection \<open>sort: a clone or the receiver\<close>

lemma full_key_total:
  assumes "i \<in> dom (Annotations__types a)" and "i \<in> dom (Annotations__locations a)"
  shows "\<exists>k. full_key key_fn a i = Inr k"
  using assms by (auto simp: full_key_def subscript_def)

lemma list_sort_total:
  assumes "\<forall>x \<in> set xs. \<exists>k. key x = Inr k"
  shows "\<exists>ys. list_sort key reverse xs = Inr ys"
  by (simp add: list_sort_def comprehension_total [OF assms])

lemma sort_in_place_total:
  assumes "consistent a"
  shows "\<exists>a'. sort_in_place a key_fn reverse = Inr a'"
proof -
  have keys: "\<forall>i \<in> set (Annotations__ids a). \<exists>k. full_key kf a i = Inr k" for kf :: "'j key_fn"
    using assms by (auto simp: consistent_def ids_def intro!: full_key_total)
  show ?thesis
  proof (cases key_fn)
    case None
    from list_sort_total [OF keys, of default_key_fn reverse] obtain ys
      where "list_sort (full_key default_key_fn a) reverse (Annotations__ids a) = Inr ys" ..
    with None show ?thesis by (simp add: sort_in_place_def)
  next
    case (Some k)
    from list_sort_total [OF keys, of k reverse] obtain ys
      where "list_sort (full_key k a) reverse (Annotations__ids a) = Inr ys" ..
    with Some show ?thesis by (simp add: sort_in_place_def)
  qed
qed

text \<open>
  On keys that can all be computed, \<open>list_sort\<close> is the stable sort by key; with
  \<open>reverse\<close>, the stable sort of the reversed list, reversed.
\<close>

lemma insort_key_decorated:
  "insort_key fst (f x, x) (map (\<lambda>y. (f y, y)) ys) = map (\<lambda>y. (f y, y)) (insort_key f x ys)"
  by (induction ys) simp_all

lemma sort_key_decorated:
  "sort_key fst (map (\<lambda>y. (f y, y)) xs) = map (\<lambda>y. (f y, y)) (sort_key f xs)"
  by (induction xs) (simp_all add: insort_key_decorated)

lemma list_sort_sort_key:
  assumes "\<forall>x \<in> set xs. key x = Inr (f x)"
  shows "list_sort key reverse xs =
           Inr (if reverse then rev (sort_key f (rev xs)) else sort_key f xs)"
proof -
  have "comprehension key ys = Inr (map f ys)" if "\<forall>x \<in> set ys. key x = Inr (f x)" for ys
    using that by (induction ys) simp_all
  from this [OF assms] have keys: "comprehension key xs = Inr (map f xs)" .
  have zip: "zip (map f ys) ys = map (\<lambda>y. (f y, y)) ys" for ys
    by (induction ys) simp_all
  have "rev (map (\<lambda>y. (f y, y)) xs) = map (\<lambda>y. (f y, y)) (rev xs)"
    by (simp add: rev_map)
  then show ?thesis
    by (simp add: list_sort_def keys zip sort_key_decorated comp_def rev_map)
qed

lemma sort_in_place_sort_key:
  assumes "consistent a"
  shows "sort_in_place a (Some key_fn) reverse =
           Inr (a\<lparr> Annotations__ids :=
                  (if reverse then rev (sort_key (key_of key_fn a) (rev (ids a)))
                   else sort_key (key_of key_fn a) (ids a)) \<rparr>)"
    and "sort_in_place a (None :: int key_fn option) reverse =
           Inr (a\<lparr> Annotations__ids :=
                  (if reverse then rev (sort_key (\<lambda>i. i) (rev (ids a)))
                   else sort_key (\<lambda>i. i) (ids a)) \<rparr>)"
proof -
  have keys: "\<forall>i \<in> set (Annotations__ids a). full_key kf a i = Inr (key_of kf a i)"
    for kf :: "'j key_fn"
  proof
    fix i
    assume "i \<in> set (Annotations__ids a)"
    with assms have "i \<in> dom (Annotations__types a)" "i \<in> dom (Annotations__locations a)"
      by (auto simp: consistent_def ids_def)
    then obtain ty loc
      where "Annotations__types a i = Some ty" "Annotations__locations a i = Some loc"
      by blast
    then show "full_key kf a i = Inr (key_of kf a i)"
      by (simp add: full_key_def subscript_def key_of_def)
  qed
  have default: "key_of default_key_fn a = (\<lambda>i. i)"
    by (simp add: key_of_def default_key_fn_def fun_eq_iff)
  show "sort_in_place a (Some key_fn) reverse =
           Inr (a\<lparr> Annotations__ids :=
                  (if reverse then rev (sort_key (key_of key_fn a) (rev (ids a)))
                   else sort_key (key_of key_fn a) (ids a)) \<rparr>)"
    by (simp add: sort_in_place_def list_sort_sort_key [OF keys] ids_def)
  show "sort_in_place a (None :: int key_fn option) reverse =
           Inr (a\<lparr> Annotations__ids :=
                  (if reverse then rev (sort_key (\<lambda>i. i) (rev (ids a)))
                   else sort_key (\<lambda>i. i) (ids a)) \<rparr>)"
    using list_sort_sort_key [OF keys, of default_key_fn reverse]
    by (simp add: sort_in_place_def ids_def default)
qed

text \<open>
  C5. Let \<open>self\<close> refer to an object of the store. When \<open>sort\<close> with \<open>in_place=False\<close>
  returns, it returns a reference to a new object, allocated beyond every object of the
  store; every object that was in the store, the receiver among them, is as it was, so
  \<open>ids()\<close> of the receiver is unchanged; the new object is the receiver's copy with its
  ids sorted; and a later call on the copy leaves the receiver as it was, as a later call
  on the receiver leaves the copy. When \<open>sort\<close> with \<open>in_place=True\<close> returns, it
  returns \<open>None\<close>, allocates nothing, leaves every other object as it was, and the
  receiver differs from before only in its id order, which is a rearrangement of the old
  one: the sorted one. On a consistent receiver \<open>sort\<close> does return, in either mode.
\<close>

theorem sort_clone_or_in_place:
  fixes key_fn :: "('k::linorder) key_fn option" and c :: "('j::linorder) call"
  assumes "self < length h"
  shows
    "(\<forall>h' ret. Annotations_sort h self key_fn reverse False = Inr (h', ret) \<longrightarrow>
        ret = Some (length h) \<and> length h' = Suc (length h) \<and>
        (\<forall>r < length h. h' ! r = h ! r) \<and>
        ids (h' ! self) = ids (h ! self) \<and>
        sort_in_place (h ! self) key_fn reverse = Inr (h' ! length h) \<and>
        call_on h' (length h) c ! self = h ! self \<and>
        call_on h' self c ! length h = h' ! length h) \<and>
     (\<forall>h' ret. Annotations_sort h self key_fn reverse True = Inr (h', ret) \<longrightarrow>
        ret = None \<and> length h' = length h \<and>
        (\<forall>r < length h. r \<noteq> self \<longrightarrow> h' ! r = h ! r) \<and>
        sort_in_place (h ! self) key_fn reverse = Inr (h' ! self) \<and>
        (\<exists>ys. mset ys = mset (ids (h ! self)) \<and>
              h' ! self = (h ! self)\<lparr> Annotations__ids := ys \<rparr>)) \<and>
     (consistent (h ! self) \<longrightarrow>
        (\<exists>h' ret. Annotations_sort h self key_fn reverse in_place = Inr (h', ret)))"
proof -
  have copy:
    "ret = Some (length h) \<and> length h' = Suc (length h) \<and>
     (\<forall>r < length h. h' ! r = h ! r) \<and>
     ids (h' ! self) = ids (h ! self) \<and>
     sort_in_place (h ! self) key_fn reverse = Inr (h' ! length h) \<and>
     call_on h' (length h) c ! self = h ! self \<and>
     call_on h' self c ! length h = h' ! length h"
    if res: "Annotations_sort h self key_fn reverse False = Inr (h', ret)" for h' ret
  proof -
    from res obtain a where a: "sort_in_place (h ! self) key_fn reverse = Inr a"
      and h': "h' = h @ [a]" and ret: "ret = Some (length h)"
      by (rule sort_Inr) auto
    have len: "length h' = Suc (length h)" by (simp add: h')
    have old: "\<forall>r < length h. h' ! r = h ! r" by (simp add: h' nth_append)
    have same: "ids (h' ! self) = ids (h ! self)" using old assms by simp
    have new: "sort_in_place (h ! self) key_fn reverse = Inr (h' ! length h)" by (simp add: h' a)
    have "call_on h' (length h) c ! self = h' ! self"
      using assms by (intro call_on_other) (simp_all add: h')
    then have indep1: "call_on h' (length h) c ! self = h ! self"
      using old assms by simp
    have indep2: "call_on h' self c ! length h = h' ! length h"
      using assms by (intro call_on_other) (simp_all add: h')
    from ret len old same new indep1 indep2 show ?thesis
      by (intro conjI)
  qed
  have inplace:
    "ret = None \<and> length h' = length h \<and>
     (\<forall>r < length h. r \<noteq> self \<longrightarrow> h' ! r = h ! r) \<and>
     sort_in_place (h ! self) key_fn reverse = Inr (h' ! self) \<and>
     (\<exists>ys. mset ys = mset (ids (h ! self)) \<and>
           h' ! self = (h ! self)\<lparr> Annotations__ids := ys \<rparr>)"
    if res: "Annotations_sort h self key_fn reverse True = Inr (h', ret)" for h' ret
  proof -
    from res obtain a where a: "sort_in_place (h ! self) key_fn reverse = Inr a"
      and h': "h' = h[self := a]" and ret: "ret = None"
      by (rule sort_Inr) auto
    have len: "length h' = length h" by (simp add: h')
    have others: "\<forall>r < length h. r \<noteq> self \<longrightarrow> h' ! r = h ! r" by (simp add: h')
    have self: "h' ! self = a" using assms by (simp add: h')
    have new: "sort_in_place (h ! self) key_fn reverse = Inr (h' ! self)" by (simp add: self a)
    from sort_in_place_Inr [OF a]
    have perm: "\<exists>ys. mset ys = mset (ids (h ! self)) \<and>
        h' ! self = (h ! self)\<lparr> Annotations__ids := ys \<rparr>"
      by (auto simp: self ids_def)
    from ret len others new perm show ?thesis
      by (intro conjI)
  qed
  have total: "\<exists>h' ret. Annotations_sort h self key_fn reverse in_place = Inr (h', ret)"
    if "consistent (h ! self)"
  proof -
    from that obtain a where "sort_in_place (h ! self) key_fn reverse = Inr a"
      using sort_in_place_total by blast
    then show ?thesis
      by (cases in_place) (simp_all add: sort_True sort_False)
  qed
  from copy inplace total show ?thesis
    by blast
qed

theorem sort_clone_or_in_place_witness:
  "(0::nat) < length [example_unsorted] \<and>
   Annotations_sort [example_unsorted] 0 (None :: int key_fn option) False False =
     Inr ([example_unsorted, example_set], Some 1) \<and>
   ids ([example_unsorted, example_set] ! 0) = [2, 1] \<and>
   ids ([example_unsorted, example_set] ! 1) = [1, 2] \<and>
   call_on [example_unsorted, example_set] 1
       (Add_annotation 3 ''postsynaptic_site'' [1, 2, 3] :: int call) ! 0 = example_unsorted \<and>
   Annotations_sort [example_unsorted] 0 (None :: int key_fn option) False True =
     Inr ([example_set], None) \<and>
   consistent example_unsorted"
proof -
  have sorted: "sort_in_place example_unsorted (None :: int key_fn option) False = Inr example_set"
    by (simp add: sort_in_place_def list_sort_def full_key_def subscript_def default_key_fn_def
        example_unsorted_def example_set_def)
  have clone: "Annotations_sort [example_unsorted] 0 (None :: int key_fn option) False False =
      Inr ([example_unsorted, example_set], Some 1)"
    by (simp add: sort_False sorted)
  have in_place: "Annotations_sort [example_unsorted] 0 (None :: int key_fn option) False True =
      Inr ([example_set], None)"
    by (simp add: sort_True sorted)
  have cons: "consistent example_unsorted"
    by (simp add: consistent_def ids_def example_unsorted_def example_set_def)
  have ids: "ids example_unsorted = [2, 1]" "ids example_set = [1, 2]"
    by (simp_all add: ids_def example_unsorted_def example_set_def)
  from sort_clone_or_in_place [of 0 "[example_unsorted]" "None :: int key_fn option" False
      "Add_annotation 3 ''postsynaptic_site'' [1, 2, 3] :: int call" True]
    clone in_place cons ids
  show ?thesis
    by simp
qed

section \<open>Properties of the adapter\<close>

lemmas engine_defs = AbstractCremiFile_create_dataset_def AbstractCremiFile_replace_compatible_dataset_def AbstractCremiFile_create_group_def file_create_group_def segments_def contains_def is_group_def group_contains_def file_create_dataset_def Let_def attrs_assign_def file_contains_def attrs_contains_def attrs_get_def file_dataset_def

lemma and_then_simps [simp]:
  "and_then (Inl e) k = Inl e" "and_then (Inr x) k = k x"
  by (simp_all add: and_then_def)

lemma create_dataset_chunk_arg:
  "chunks_given b \<Longrightarrow> create_dataset b f path data t c =
     and_then (AbstractCremiFile_replace_compatible_dataset f path data t) (\<lambda>f1.
       file_create_dataset f1 path data t c (chunk_arg b (np_shape data)))"
  apply (cases b)
   apply (simp add: AbstractCremiFile_create_dataset_def)
  subgoal for cs
    by (cases cs) (simp_all add: chunks_given_def CremiN5_create_dataset_def CremiN5_chunks_def)
  done

lemma spatial_involution [simp]: "spatial b (spatial b s) = s"
  by (cases b) (simp_all add: AbstractCremiFile_spatial_def CremiN5_spatial_def)

lemma length_spatial [simp]: "length (spatial b s) = length s"
  by (cases b) (simp_all add: AbstractCremiFile_spatial_def CremiN5_spatial_def)

lemma as_location_of_location [simp]: "as_location (of_location loc) = Inr loc"
proof -
  have "comprehension as_float (map PyFloat xs) = Inr xs" for xs
    by (induction xs) (simp_all add: as_float_def)
  then show ?thesis
    by (simp add: as_location_def of_location_def)
qed

lemma array_of_ints:
  "array_of uint64 (np_shape (PySeq (map PyInt xs))) (PySeq (map PyInt xs)) \<longleftrightarrow>
     (\<forall>i \<in> set xs. 0 \<le> i \<and> i < 2 ^ 64)"
  by (cases xs) (auto simp: list_all_iff)

lemma array_of_bytes:
  "array_of unicode_dtype (np_shape (PySeq (map PyBytes xs))) (PySeq (map PyBytes xs))"
  by (cases xs) (auto simp: list_all_iff)

lemma array_of_location: "array_of double [length loc] (of_location loc)"
  by (simp add: of_location_def list_all_iff)

lemma np_shape_of_location: "np_shape (of_location loc) = [length loc]"
  by (cases loc) (simp_all add: of_location_def)

lemma array_of_locations:
  assumes "\<forall>loc \<in> set locs. length loc = 3"
  shows "array_of double (np_shape (PySeq (map (\<lambda>loc. of_location (spatial b loc)) locs)))
           (PySeq (map (\<lambda>loc. of_location (spatial b loc)) locs))"
proof (cases locs)
  case Nil
  then show ?thesis by simp
next
  case (Cons l ls)
  have "array_of double [3] (of_location (spatial b loc))" if "loc \<in> set locs" for loc
    using array_of_location [of "spatial b loc"] assms that by simp
  with Cons assms show ?thesis
    by (simp add: np_shape_of_location list_all_iff)
qed

lemma array_of_partners:
  assumes "\<forall>(p, q) \<in> set ps. 0 \<le> p \<and> p < 2 ^ 64 \<and> 0 \<le> q \<and> q < 2 ^ 64"
  shows "array_of uint64 (np_shape (PySeq (map (\<lambda>(p, q). PySeq [PyInt p, PyInt q]) ps)))
           (PySeq (map (\<lambda>(p, q). PySeq [PyInt p, PyInt q]) ps))"
proof (cases ps)
  case Nil
  then show ?thesis by simp
next
  case (Cons x xs)
  with assms show ?thesis
    by (cases x) (auto simp: list_all_iff)
qed

lemma comprehension_subscript:
  "set xs \<subseteq> dom m \<Longrightarrow> comprehension (subscript m) xs = Inr (map (\<lambda>x. the (m x)) xs)"
  by (induction xs) (auto simp: subscript_def)






lemma comments_loop_filter:
  "comments_loop cm xs (ks, vs) =
     (ks @ filter (\<lambda>i. cm i \<noteq> None) xs, vs @ map (\<lambda>i. the (cm i)) (filter (\<lambda>i. cm i \<noteq> None) xs))"
  by (induction xs arbitrary: ks vs) (auto split: option.splits)

lemma write_annotations_fresh:
  assumes cons: "consistent a"
    and nonempty: "ids a \<noteq> []"
    and range: "\<forall>i \<in> set (ids a). in_uint64 i"
    and triples: "\<forall>i \<in> set (ids a). \<forall>loc. Annotations__locations a i = Some loc \<longrightarrow> length loc = 3"
    and chunks: "chunks_given b"
    and fresh: "fresh f"
  shows "write_annotations b f a = Inr (written b f a)"
proof -
  obtain attrs0 where f: "f = \<lparr> groups = {}, datasets = Map.empty, attrs = attrs0 \<rparr>"
    using fresh by (cases f) (simp add: fresh_def)
  define T where "T = (\<lambda>i. the (Annotations__types a i))"
  define L where "L = (\<lambda>i. the (Annotations__locations a i))"
  define K where "K = commented_ids a"
  define C where "C = (\<lambda>i. the (comments a i))"
  define ts where "ts = map T (ids a)"
  define locs where "locs = map L (ids a)"
  define vals where "vals = map C K"
  from cons have sub: "set (Annotations__ids a) \<subseteq> dom (Annotations__types a)"
    "set (Annotations__ids a) \<subseteq> dom (Annotations__locations a)"
    and cm_sub: "dom (comments a) \<subseteq> set (Annotations__ids a)"
    and pp_sub: "\<forall>(p, q) \<in> set (pre_post_partners a).
        p \<in> set (Annotations__ids a) \<and> q \<in> set (Annotations__ids a)"
    by (simp_all add: consistent_def ids_def)
  have types: "types a = Inr ts"
    by (simp add: types_def ts_def T_def comprehension_subscript [OF sub(1)] ids_def)
  have locations: "locations a = Inr locs"
    by (simp add: locations_def locs_def L_def comprehension_subscript [OF sub(2)] ids_def)
  have loop: "comments_loop (comments a) (ids a) ([], []) = (K, vals)"
    by (simp add: comments_loop_filter K_def vals_def C_def commented_ids_def)
  have ids_ok: "\<forall>i \<in> set (ids a). 0 \<le> i \<and> i < 2 ^ 64"
    using range by (simp add: in_uint64_def)
  have K_ok: "\<forall>i \<in> set K. 0 \<le> i \<and> i < 2 ^ 64"
    using ids_ok by (simp add: K_def commented_ids_def)
  have pp_ok: "\<forall>(p, q) \<in> set (pre_post_partners a). 0 \<le> p \<and> p < 2 ^ 64 \<and> 0 \<le> q \<and> q < 2 ^ 64"
    using pp_sub ids_ok by (auto simp: ids_def)
  have locs_ok: "\<forall>loc \<in> set locs. length loc = 3"
    using triples sub(2) by (auto simp: locs_def L_def ids_def)
  note arrays = array_of_ints array_of_bytes array_of_locations [OF locs_ok]
    array_of_partners [OF pp_ok]
  have w: "written b f a = W" if "W = written b f a" for W
    using that by simp
  have folded: "written b f a =
     (let f1 = put_group f [''annotations''];
          f2 = f1\<lparr> attrs := (attrs f1)([''annotations''] :=
                   [''offset'' \<mapsto> of_location (spatial b (offset a))]) \<rparr>;
          f3 = put_dataset f2 [''annotations'', ''ids'']
                 (stored b (PySeq (map PyInt (ids a))) uint64 None);
          f4 = put_dataset f3 [''annotations'', ''types'']
                 (stored b (PySeq (map PyBytes ts)) unicode_dtype (Some ''gzip''));
          f5 = put_dataset f4 [''annotations'', ''locations'']
                 (stored b (PySeq (map (\<lambda>loc. of_location (spatial b loc)) locs)) double None);
          f6 = (if dom (comments a) \<noteq> {} then
                  put_dataset
                    (put_dataset (put_group f5 [''annotations'', ''comments''])
                       [''annotations'', ''comments'', ''target_ids'']
                       (stored b (PySeq (map PyInt K)) uint64 None))
                    [''annotations'', ''comments'', ''comments'']
                    (stored b (PySeq (map PyBytes vals)) unicode_dtype None)
                else f5)
      in if pre_post_partners a \<noteq> [] then
           put_dataset (put_group f6 [''annotations'', ''presynaptic_site''])
             [''annotations'', ''presynaptic_site'', ''partners'']
             (stored b
                (PySeq (map (\<lambda>(pre_id, post_id). PySeq [PyInt pre_id, PyInt post_id])
                          (pre_post_partners a)))
                uint64 None)
         else f6)"
    by (simp add: written_def ts_def locs_def vals_def T_def L_def C_def K_def comp_def Let_def)
  show ?thesis
    unfolding folded
    using nonempty ids_ok K_ok
    by (simp add: write_annotations_def types locations loop f engine_defs
      create_dataset_chunk_arg [OF chunks] arrays put_group_def put_dataset_def stored_def)
qed







subsection \<open>Writing annotations and reading them back\<close>





subsection \<open>Ids added more than once\<close>

lemma count_list_filter:
  "count_list (filter P xs) x = (if P x then count_list xs x else 0)"
  by (induction xs) auto

lemma call_on_ids_mset:
  fixes c :: "('k::linorder) call"
  assumes "r < length h"
  shows "mset (ids (call_on h r c ! r)) = mset (ids (h ! r)) + mset (added_ids [c])"
proof (cases c)
  case (Add_annotation i ty loc)
  with assms show ?thesis by (simp add: add_annotation_def ids_def)
next
  case (Add_comment i cm)
  show ?thesis
  proof (cases "add_comment (h ! r) i cm")
    case (Inl e)
    with Add_comment show ?thesis by simp
  next
    case (Inr a)
    then have "ids a = ids (h ! r)"
      by (auto simp: add_comment_Inr ids_def)
    with Inr Add_comment assms show ?thesis by simp
  qed
next
  case (Set_pre_post_partners p q)
  show ?thesis
  proof (cases "set_pre_post_partners (h ! r) p q")
    case (Inl e)
    with Set_pre_post_partners show ?thesis by simp
  next
    case (Inr a)
    then have "ids a = ids (h ! r)"
      by (auto simp: set_pre_post_partners_Inr ids_def)
    with Inr Set_pre_post_partners assms show ?thesis by simp
  qed
next
  case (Sort key_fn reverse in_place)
  show ?thesis
  proof (cases "Annotations_sort h r key_fn reverse in_place")
    case (Inl e)
    with Sort show ?thesis by simp
  next
    case (Inr res)
    obtain h' ret where res: "res = (h', ret)" by (cases res)
    from Inr [unfolded res] obtain a where a: "sort_in_place (h ! r) key_fn reverse = Inr a"
      and h': "h' = (if in_place then h[r := a] else h @ [a])"
      by (rule sort_Inr) auto
    from sort_in_place_Inr [OF a]
    have "mset (ids a) = mset (ids (h ! r))" by (auto simp: ids_def)
    with Sort Inr res assms show ?thesis
      by (auto simp: h' nth_append)
  qed
qed

lemma object_ids_mset:
  fixes calls :: "('k::linorder) call list"
  shows "mset (ids (object off calls)) = mset (added_ids calls)"
proof (induction calls rule: rev_induct)
  case Nil
  show ?case by (simp add: object_def history_def Annotations_init_def ids_def)
next
  case (snoc c calls)
  with call_on_ids_mset [OF history_nonempty, of off calls c] show ?case
    by (simp add: object_def history_snoc added_ids_append)
qed

lemma object_well_formed:
  fixes calls :: "('k::linorder) call list"
  shows "well_formed (object off calls)"
  using history_well_formed [of off calls] history_nonempty [of off calls]
  by (simp add: object_def)

lemma written_comment_datasets:
  assumes "dom (comments a) \<noteq> {}"
  shows "datasets (written b f a) [''annotations'', ''comments'', ''target_ids''] =
           Some (stored b (PySeq (map PyInt (commented_ids a))) uint64 None)"
    and "datasets (written b f a) [''annotations'', ''comments'', ''comments''] =
           Some (stored b (PySeq (map (\<lambda>i. PyBytes (the (comments a i))) (commented_ids a)))
                   unicode_dtype None)"
  using assms by (simp_all add: written_def put_dataset_def put_group_def Let_def)


text \<open>
  C10. Take the set reached by any list of calls, and an id of it that has a comment.
  The id stands in the id order as many times as \<open>add_annotation\<close> was called with it,
  and the loop of \<open>write_annotations\<close> over the id order puts it as many times into the
  keys, each time with its comment at the same index of the values. Starting from a fresh
  container (ids in the unsigned 64-bit range, locations of three coordinates),
  \<open>write_annotations\<close> returns and these keys and values are the contents of
  \<open>/annotations/comments/target_ids\<close> and \<open>/annotations/comments/comments\<close>.
\<close>

theorem duplicate_id_comment_repeated:
  fixes calls :: "('k::linorder) call list"
  assumes "\<forall>i \<in> set (added_ids calls). in_uint64 i"
    and "\<forall>i \<in> set (added_ids calls). \<forall>loc.
           Annotations__locations (object off calls) i = Some loc \<longrightarrow> length loc = 3"
    and "chunks_given b"
    and "fresh f"
    and "comments (object off calls) i = Some c"
  shows
    "count_list (ids (object off calls)) i = count_list (added_ids calls) i \<and>
     comments_loop (comments (object off calls)) (ids (object off calls)) ([], []) =
       (commented_ids (object off calls),
        map (\<lambda>j. the (comments (object off calls) j)) (commented_ids (object off calls))) \<and>
     count_list (commented_ids (object off calls)) i = count_list (added_ids calls) i \<and>
     (\<forall>n < length (commented_ids (object off calls)).
        commented_ids (object off calls) ! n = i \<longrightarrow>
        map (\<lambda>j. the (comments (object off calls) j)) (commented_ids (object off calls)) ! n = c) \<and>
     (\<exists>f' keys vals.
        write_annotations b f (object off calls) = Inr f' \<and>
        datasets f' [''annotations'', ''comments'', ''target_ids''] = Some keys \<and>
        ds_data keys = PySeq (map PyInt (commented_ids (object off calls))) \<and>
        datasets f' [''annotations'', ''comments'', ''comments''] = Some vals \<and>
        ds_data vals =
          PySeq (map (\<lambda>j. PyBytes (the (comments (object off calls) j)))
                   (commented_ids (object off calls))))"
proof -
  define a where "a = object off calls"
  have wf: "well_formed a"
    unfolding a_def by (rule object_well_formed)
  have ms: "mset (ids a) = mset (added_ids calls)"
    unfolding a_def by (rule object_ids_mset)
  then have set_eq: "set (ids a) = set (added_ids calls)"
    by (metis set_mset_mset)
  have count: "count_list (ids a) i = count_list (added_ids calls) i"
    using ms by (metis count_mset)
  have loop: "comments_loop (comments a) (ids a) ([], []) =
      (commented_ids a, map (\<lambda>j. the (comments a j)) (commented_ids a))"
    by (simp add: comments_loop_filter commented_ids_def)
  have count_keys: "count_list (commented_ids a) i = count_list (added_ids calls) i"
    using assms(5) count by (simp add: commented_ids_def count_list_filter a_def)
  have aligned: "\<forall>n < length (commented_ids a). commented_ids a ! n = i \<longrightarrow>
      map (\<lambda>j. the (comments a j)) (commented_ids a) ! n = c"
    using assms(5) by (simp add: a_def)
  have "i \<in> dom (comments a)"
    using assms(5) by (auto simp: a_def)
  then have some: "dom (comments a) \<noteq> {}"
    by blast
  with wf have nonempty: "ids a \<noteq> []"
    by (auto simp: well_formed_def ids_def)
  have w: "write_annotations b f a = Inr (written b f a)"
    using well_formed_consistent [OF wf] nonempty assms(1,2,3,4)
    unfolding set_eq [symmetric] a_def [symmetric]
    by (rule write_annotations_fresh)
  have stored:
    "\<exists>f' keys vals.
        write_annotations b f a = Inr f' \<and>
        datasets f' [''annotations'', ''comments'', ''target_ids''] = Some keys \<and>
        ds_data keys = PySeq (map PyInt (commented_ids a)) \<and>
        datasets f' [''annotations'', ''comments'', ''comments''] = Some vals \<and>
        ds_data vals = PySeq (map (\<lambda>j. PyBytes (the (comments a j))) (commented_ids a))"
    using w written_comment_datasets [OF some, of b f]
    by (simp add: stored_def)
  from count loop count_keys aligned stored show ?thesis
    unfolding a_def by (intro conjI)
qed

lemma object_duplicate: "object default_offset duplicate_calls = duplicate_set"
  by (simp add: object_def history_def duplicate_calls_def duplicate_set_def default_offset_def
      Annotations_init_def add_annotation_def add_comment_def check_def fun_eq_iff)

theorem duplicate_id_comment_repeated_witness:
  "list_all in_uint64 (added_ids duplicate_calls) \<and> chunks_given CremiFile \<and>
   fresh empty_container \<and>
   comments (object default_offset duplicate_calls) 5 = Some ''twice'' \<and>
   count_list (added_ids duplicate_calls) 5 = 2 \<and>
   commented_ids (object default_offset duplicate_calls) = [5, 5] \<and>
   (\<exists>f' keys vals.
      write_annotations CremiFile empty_container (object default_offset duplicate_calls) = Inr f' \<and>
      datasets f' [''annotations'', ''comments'', ''target_ids''] = Some keys \<and>
      ds_data keys = PySeq [PyInt 5, PyInt 5] \<and>
      datasets f' [''annotations'', ''comments'', ''comments''] = Some vals \<and>
      ds_data vals = PySeq [PyBytes ''twice'', PyBytes ''twice''])"
proof -
  have range: "\<forall>i \<in> set (added_ids duplicate_calls). in_uint64 i"
    by (simp add: duplicate_calls_def in_uint64_def)
  have triples: "\<forall>i \<in> set (added_ids duplicate_calls). \<forall>loc.
      Annotations__locations (object default_offset duplicate_calls) i = Some loc \<longrightarrow>
      length loc = 3"
    unfolding object_duplicate by (auto simp: duplicate_set_def duplicate_calls_def)
  have chunks: "chunks_given CremiFile"
    by (simp add: chunks_given_def)
  have fresh: "fresh empty_container"
    by (simp add: fresh_def empty_container_def)
  have comment: "comments (object default_offset duplicate_calls) 5 = Some ''twice''"
    by (simp add: object_duplicate duplicate_set_def)
  have count: "count_list (added_ids duplicate_calls) 5 = 2"
    by (simp add: duplicate_calls_def)
  have keys: "commented_ids (object default_offset duplicate_calls) = [5, 5]"
    by (simp add: object_duplicate duplicate_set_def commented_ids_def ids_def)
  from duplicate_id_comment_repeated [OF range triples chunks fresh comment]
    range chunks fresh comment count keys
  show ?thesis
    by (simp add: list_all_iff object_duplicate)
qed

subsection \<open>The dataset write\<close>

lemma and_then_Inr: "and_then m k = Inr y \<longleftrightarrow> (\<exists>x. m = Inr x \<and> k x = Inr y)"
  by (cases m) simp_all

lemma add_groups_datasets: "datasets (add_groups f ps) = datasets f"
  by (induction ps arbitrary: f) simp_all

lemma create_group_loop_datasets:
  "create_group_loop f path ds = Inr f' \<Longrightarrow> datasets f' = datasets f"
proof (induction ds arbitrary: f path)
  case Nil
  then show ?case by simp
next
  case (Cons d ds)
  show ?case
  proof (cases "file_create_group f (path @ d @ ''/'')")
    case (Inl e)
    with Cons show ?thesis
      by (auto split: if_splits)
  next
    case (Inr g)
    then have "datasets g = datasets f"
      by (auto simp: file_create_group_def Let_def add_groups_datasets split: if_splits)
    with Cons Inr show ?thesis
      by auto
  qed
qed

lemma replace_compatible_keeps_compatible:
  assumes ds: "file_dataset f path = Inr ds"
    and compatible: "ds_dtype ds = t" "ds_shape ds = np_shape data"
    and ret: "AbstractCremiFile_replace_compatible_dataset f path data t = Inr f1"
  shows "datasets f1 (segments path) \<noteq> None"
proof -
  from ds have here: "datasets f (segments path) = Some ds"
    by (auto simp: file_dataset_def split: option.splits if_splits)
  from ret obtain g present
    where g: "AbstractCremiFile_create_group f (join_slash (butlast (split_slash path))) = Inr g"
      and rest: "(if present then
                    and_then (file_dataset g path) (\<lambda>ds.
                      if ds_dtype ds = t \<and> ds_shape ds = np_shape data
                      then dataset_assign g path data
                      else file_delete g path)
                  else Inr g) = Inr f1"
    by (auto simp: AbstractCremiFile_replace_compatible_dataset_def Let_def and_then_Inr)
  from g have same: "datasets g = datasets f"
    by (auto simp: AbstractCremiFile_create_group_def dest: create_group_loop_datasets)
  then have dg: "file_dataset g path = Inr ds"
    using here by (simp add: file_dataset_def)
  show ?thesis
  proof (cases present)
    case False
    with rest same here show ?thesis by simp
  next
    case True
    with rest dg compatible have "dataset_assign g path data = Inr f1"
      by simp
    then show ?thesis
      by (auto simp: dataset_assign_def dg split: if_splits)
  qed
qed

lemma file_create_dataset_present:
  "datasets f (segments path) \<noteq> None \<Longrightarrow>
     file_create_dataset f path data t compression chunks = Inl ValueError"
  by (simp add: file_create_dataset_def contains_def Let_def)

text \<open>
  C1, where the code departs from it. Let a dataset of the same element type and shape
  as the data be at the path. Then no write through \<open>_create_dataset\<close> returns, with
  either adapter: whenever \<open>_replace_compatible_dataset\<close> returns (after the overwrite in
  place), the dataset is still at the path, \<open>_create_dataset\<close> goes on to create a
  dataset there, and the engine refuses the name that exists.
\<close>

theorem compatible_dataset_write_raises:
  assumes "file_dataset f path = Inr ds"
    and "ds_dtype ds = t"
    and "ds_shape ds = np_shape data"
  shows "(\<exists>e. create_dataset b f path data t compression = Inl e) \<and>
         (\<forall>f1. AbstractCremiFile_replace_compatible_dataset f path data t = Inr f1 \<longrightarrow>
            datasets f1 (segments path) \<noteq> None \<and>
            AbstractCremiFile_create_dataset f path data t compression = Inl ValueError)"
proof -
  have after: "datasets f1 (segments path) \<noteq> None"
    if "AbstractCremiFile_replace_compatible_dataset f path data t = Inr f1" for f1
    using assms that by (rule replace_compatible_keeps_compatible)
  have base: "AbstractCremiFile_create_dataset f path data t compression = Inl ValueError"
    if "AbstractCremiFile_replace_compatible_dataset f path data t = Inr f1" for f1
    using that file_create_dataset_present [OF after [OF that]]
    by (simp add: AbstractCremiFile_create_dataset_def)
  have "\<exists>e. create_dataset b f path data t compression = Inl e"
  proof (cases "AbstractCremiFile_replace_compatible_dataset f path data t")
    case (Inl e)
    then show ?thesis
      by (cases b) (simp_all add: AbstractCremiFile_create_dataset_def CremiN5_create_dataset_def)
  next
    case (Inr f1)
    show ?thesis
    proof (cases b)
      case CremiFile
      with base [OF Inr] show ?thesis by simp
    next
      case (CremiN5 self_chunks)
      show ?thesis
      proof (cases "CremiN5_chunks self_chunks (np_shape data)")
        case (Inl e)
        with CremiN5 Inr show ?thesis
          by (simp add: CremiN5_create_dataset_def)
      next
        case chunks: (Inr chunks)
        with CremiN5 Inr file_create_dataset_present [OF after [OF Inr]] show ?thesis
          by (simp add: CremiN5_create_dataset_def)
      qed
    qed
  qed
  with after base show ?thesis
    by blast
qed

lemma const_upd: "(\<lambda>p. c)(x := c) = (\<lambda>p. c)"
  by auto

text \<open>
  The three states at \<open>/volumes/raw\<close>: absent, the dataset is created; present with the
  same type and shape, the contents are overwritten and the creation that follows raises;
  present with another shape, the dataset is deleted and created anew.
\<close>

theorem compatible_dataset_write_raises_witness:
  "AbstractCremiFile_create_dataset empty_container ''/volumes/raw'' first_data uint8
       (Some ''gzip'') = Inr (container_with_raw first_data) \<and>
   file_dataset (container_with_raw first_data) ''/volumes/raw'' = Inr (raw_dataset first_data) \<and>
   ds_dtype (raw_dataset first_data) = uint8 \<and>
   ds_shape (raw_dataset first_data) = np_shape same_shape_data \<and>
   AbstractCremiFile_replace_compatible_dataset (container_with_raw first_data) ''/volumes/raw''
       same_shape_data uint8 = Inr (container_with_raw same_shape_data) \<and>
   AbstractCremiFile_create_dataset (container_with_raw first_data) ''/volumes/raw''
       same_shape_data uint8 (Some ''gzip'') = Inl ValueError \<and>
   AbstractCremiFile_create_dataset (container_with_raw first_data) ''/volumes/raw''
       other_shape_data uint8 (Some ''gzip'') = Inr (container_with_raw other_shape_data)"
proof -
  have absent: "AbstractCremiFile_create_dataset empty_container ''/volumes/raw'' first_data uint8
       (Some ''gzip'') = Inr (container_with_raw first_data)"
    by (simp add: engine_defs empty_container_def container_with_raw_def raw_dataset_def
        first_data_def const_upd)
  have ds: "file_dataset (container_with_raw first_data) ''/volumes/raw'' =
      Inr (raw_dataset first_data)"
    by (simp add: engine_defs container_with_raw_def)
  have t: "ds_dtype (raw_dataset first_data) = uint8"
    and shape: "ds_shape (raw_dataset first_data) = np_shape same_shape_data"
    by (simp_all add: raw_dataset_def first_data_def same_shape_data_def)
  have overwrite: "AbstractCremiFile_replace_compatible_dataset (container_with_raw first_data)
      ''/volumes/raw'' same_shape_data uint8 = Inr (container_with_raw same_shape_data)"
    by (simp add: engine_defs dataset_assign_def container_with_raw_def raw_dataset_def
        first_data_def same_shape_data_def)
  have incompatible: "AbstractCremiFile_create_dataset (container_with_raw first_data)
      ''/volumes/raw'' other_shape_data uint8 (Some ''gzip'') =
      Inr (container_with_raw other_shape_data)"
    by (auto simp: engine_defs file_delete_def container_with_raw_def raw_dataset_def
        first_data_def other_shape_data_def const_upd fun_eq_iff)
  from compatible_dataset_write_raises [OF ds t shape, of CremiFile "Some ''gzip''"]
    absent ds t shape overwrite incompatible
  show ?thesis
    by simp
qed

subsection \<open>The chunk shape of Backend B\<close>

text \<open>
  C3, where the code departs from it. The chunk shape that \<open>CremiN5._create_dataset\<close>
  computes has, in each dimension, the larger of the configured chunk size and the size of
  the data: it is never below the data's shape, and it exceeds it in every dimension where
  the configured chunk size does.
\<close>

theorem chunk_shape_is_maximum:
  "CremiN5_chunks (Some cs) shape = Inr chunks \<longrightarrow>
     length chunks = min (length cs) (length shape) \<and>
     (\<forall>n < length chunks.
        chunks ! n = max (cs ! n) (shape ! n) \<and>
        shape ! n \<le> chunks ! n \<and>
        (shape ! n < cs ! n \<longrightarrow> shape ! n < chunks ! n))"
  by (auto simp: CremiN5_chunks_def)

theorem chunk_shape_is_maximum_witness:
  "np_shape example_volume_data = [1, 2, 2] \<and>
   CremiN5_chunks (Some [64, 64, 64]) (np_shape example_volume_data) = Inr [64, 64, 64] \<and>
   ([1, 2, 2] :: nat list) ! 0 < ([64, 64, 64] :: nat list) ! 0 \<and>
   (\<exists>f' ds. CremiN5_create_dataset (Some [64, 64, 64]) empty_container ''/volumes/raw''
               example_volume_data uint8 (Some ''gzip'') = Inr f' \<and>
            datasets f' [''volumes'', ''raw''] = Some ds \<and>
            ds_shape ds = [1, 2, 2] \<and> ds_chunks ds = Some [64, 64, 64])"
proof -
  have shape: "np_shape example_volume_data = [1, 2, 2]"
    by (simp add: example_volume_data_def)
  have chunks: "CremiN5_chunks (Some [64, 64, 64]) (np_shape example_volume_data) =
      Inr [64, 64, 64]"
    by (simp add: shape CremiN5_chunks_def)
  have created: "\<exists>f' ds. CremiN5_create_dataset (Some [64, 64, 64]) empty_container
      ''/volumes/raw'' example_volume_data uint8 (Some ''gzip'') = Inr f' \<and>
      datasets f' [''volumes'', ''raw''] = Some ds \<and>
      ds_shape ds = [1, 2, 2] \<and> ds_chunks ds = Some [64, 64, 64]"
    by (simp add: CremiN5_create_dataset_def CremiN5_chunks_def engine_defs empty_container_def
        example_volume_data_def)
  from chunk_shape_is_maximum [of "[64, 64, 64]" "np_shape example_volume_data" "[64, 64, 64]"]
    shape chunks created
  show ?thesis
    by simp
qed

subsection \<open>The format version of Backend A\<close>

text \<open>
  C8, as amended. When \<open>CremiFile\<close> is opened with mode \<open>w\<close> or \<open>a\<close>, the open
  returns a container whose root has the attribute \<open>file_format\<close> with the value
  \<open>0.2\<close>. With any other mode the container is as the engine opened it (or the engine's
  error is raised): nothing is written.
\<close>

theorem format_version_written_for_w_and_a:
  "(mode = ''w'' \<or> mode = ''a'' \<longrightarrow>
      (\<exists>file. CremiFile_init fs filename mode = Inr file \<and>
              attrs file [] ''file_format'' = Some (PyBytes ''0.2''))) \<and>
   (mode \<noteq> ''w'' \<and> mode \<noteq> ''a'' \<longrightarrow>
      CremiFile_init fs filename mode = h5py_File fs filename mode)"
proof (intro conjI impI)
  assume "mode = ''w'' \<or> mode = ''a''"
  then show "\<exists>file. CremiFile_init fs filename mode = Inr file \<and>
              attrs file [] ''file_format'' = Some (PyBytes ''0.2'')"
    by (cases "fs filename")
       (auto simp: CremiFile_init_def h5py_File_def attrs_assign_def contains_def is_group_def
          segments_def)
next
  assume "mode \<noteq> ''w'' \<and> mode \<noteq> ''a''"
  then show "CremiFile_init fs filename mode = h5py_File fs filename mode"
    by (cases "h5py_File fs filename mode") (simp_all add: CremiFile_init_def)
qed

text \<open>
  The claim as stated fails at the mode \<open>r+\<close>, which opens an existing file for reading
  and writing: a file without the attribute is left without it.
\<close>

theorem read_write_open_leaves_format_version_unset:
  "write_capable ''r+'' \<and>
   CremiFile_init [''sample.h5'' \<mapsto> empty_container] ''sample.h5'' ''r+'' = Inr empty_container \<and>
   attrs empty_container [] ''file_format'' = None"
  by (simp add: write_capable_def CremiFile_init_def h5py_File_def empty_container_def)

theorem format_version_written_for_w_and_a_witness:
  "(\<exists>file. CremiFile_init Map.empty ''sample.h5'' ''w'' = Inr file \<and>
           attrs file [] ''file_format'' = Some (PyBytes ''0.2'')) \<and>
   (\<exists>file. CremiFile_init [''sample.h5'' \<mapsto> empty_container] ''sample.h5'' ''a'' = Inr file \<and>
           attrs file [] ''file_format'' = Some (PyBytes ''0.2'')) \<and>
   CremiFile_init [''sample.h5'' \<mapsto> empty_container] ''sample.h5'' ''r'' = Inr empty_container"
proof -
  have r: "h5py_File [''sample.h5'' \<mapsto> empty_container] ''sample.h5'' ''r'' = Inr empty_container"
    by (simp add: h5py_File_def)
  from format_version_written_for_w_and_a [of "''w''" Map.empty "''sample.h5''"]
    format_version_written_for_w_and_a
      [of "''a''" "[''sample.h5'' \<mapsto> empty_container]" "''sample.h5''"]
    format_version_written_for_w_and_a
      [of "''r''" "[''sample.h5'' \<mapsto> empty_container]" "''sample.h5''"]
    r
  show ?thesis
    by simp
qed

subsection \<open>The confidence stream\<close>

text \<open>
  C9, where the code departs from it. In the module as it is, where no name
  \<open>Confidences\<close> is bound, \<open>read_neuron_ids_confidence\<close> raises \<open>NameError\<close> on every
  container, with or without a confidence dataset, before it looks at the container.
\<close>

theorem read_neuron_ids_confidence_raises:
  "read_neuron_ids_confidence module_Confidences f = Some (Inl NameError)"
  by (simp add: read_neuron_ids_confidence_def module_Confidences_def)

theorem read_neuron_ids_confidence_raises_witness:
  "has_neuron_ids_confidence container_with_confidence \<and>
   read_neuron_ids_confidence (module_Confidences :: (int \<Rightarrow> pyval set) confidences_class option)
     container_with_confidence = Some (Inl NameError) \<and>
   \<not> has_neuron_ids_confidence empty_container \<and>
   read_neuron_ids_confidence (module_Confidences :: (int \<Rightarrow> pyval set) confidences_class option)
     empty_container = Some (Inl NameError)"
  using read_neuron_ids_confidence_raises [of container_with_confidence]
    read_neuron_ids_confidence_raises [of empty_container]
  by (simp add: has_neuron_ids_confidence_def file_contains_def segments_def contains_def
      is_group_def container_with_confidence_def empty_container_def)

text \<open>
  With a class bound to the name, the loop groups the ids of a well-formed stream by level.
\<close>

lemma bound_class_parses_stream:
  "read_neuron_ids_confidence (Some spec_Confidences) container_with_confidence =
     Some (Inr ((\<lambda>level. {})(1 := {PyInt 10, PyInt 11}, 0 := {PyInt 12})))"
  by (simp add: read_neuron_ids_confidence_def has_neuron_ids_confidence_def file_contains_def
      segments_def contains_def is_group_def container_with_confidence_def file_dataset_def
      rows_def confidence_stream_def spec_Confidences_def confidences_loop.simps py_index_def
      py_slice_def as_int_def Let_def)

subsection \<open>The axis order of Backend B\<close>









end
